theory Spec2Isabelle
  imports Main "HOL-Library.Char_ord"
begin

section \<open>Python values used by the topology code\<close>

text \<open>
  The exceptions the modelled functions can raise. A function that may raise returns
  \<open>error + 'a\<close>, with \<open>Inl\<close> for the exception.
\<close>

datatype error = IndexError | KeyError | AssertionError | ValueError

definition and_then :: "error + 'a \<Rightarrow> ('a \<Rightarrow> error + 'b) \<Rightarrow> error + 'b" where
  "and_then m f = (case m of Inl e \<Rightarrow> Inl e | Inr x \<Rightarrow> f x)"

text \<open>
  Sequence indexing \<open>xs[i]\<close>: an index in \<open>-len(xs) \<le> i < 0\<close> counts from the end,
  anything outside \<open>-len(xs) \<le> i < len(xs)\<close> raises IndexError.
\<close>

definition py_getitem :: "'a list \<Rightarrow> int \<Rightarrow> error + 'a" where
  "py_getitem xs i =
     (if 0 \<le> i \<and> i < int (length xs) then Inr (xs ! nat i)
      else if i < 0 \<and> - int (length xs) \<le> i then Inr (xs ! nat (int (length xs) + i))
      else Inl IndexError)"

text \<open>Dictionary subscription \<open>d[k]\<close> raises KeyError on a missing key.\<close>

definition py_lookup :: "('k \<rightharpoonup> 'v) \<Rightarrow> 'k \<Rightarrow> error + 'v" where
  "py_lookup d k = (case d k of None \<Rightarrow> Inl KeyError | Some v \<Rightarrow> Inr v)"

text \<open>\<open>d.setdefault(k, v)\<close> stores \<open>v\<close> only when \<open>k\<close> is missing.\<close>

definition setdefault :: "('k \<rightharpoonup> 'v) \<Rightarrow> 'k \<Rightarrow> 'v \<Rightarrow> ('k \<rightharpoonup> 'v)" where
  "setdefault d k v = (case d k of None \<Rightarrow> d(k \<mapsto> v) | Some _ \<Rightarrow> d)"

text \<open>
  \<open>int(a / b)\<close> for a positive \<open>b\<close>: true division followed by truncation towards zero.
  The float quotient is exact enough wherever the callers below accept the result as an
  index (\<open>|a| < 63 * 62\<close>); beyond that the index check fails whatever the rounding.
\<close>

definition int_truediv :: "int \<Rightarrow> int \<Rightarrow> int" where
  "int_truediv a b = (if 0 \<le> a then a div b else - ((- a) div b))"

text \<open>Decimal output of \<open>str(n)\<close> and of the \<open>%u\<close> format on integers.\<close>

definition digit_char :: "nat \<Rightarrow> char" where
  "digit_char d = char_of (48 + d)"

fun str_nat :: "nat \<Rightarrow> string" where
  "str_nat n = (if n < 10 then [digit_char n] else str_nat (n div 10) @ [digit_char (n mod 10)])"

declare str_nat.simps [simp del]

definition py_str :: "int \<Rightarrow> string" where
  "py_str i = (if i < 0 then CHR ''-'' # str_nat (nat (- i)) else str_nat (nat i))"

text \<open>
  The builtin \<open>int\<close> on strings is a parameter of the functions that call it (named
  \<open>py_int\<close> there). \<open>int_of_str\<close> is its reading of ASCII strings, used where an example
  needs a concrete function: surrounding whitespace is dropped, then an optional sign,
  then decimal digits, single underscores allowed between digits.
\<close>

definition is_space :: "char \<Rightarrow> bool" where
  "is_space c =
     (let k = (of_char c :: nat) in k = 32 \<or> (9 \<le> k \<and> k \<le> 13) \<or> (28 \<le> k \<and> k \<le> 31))"

definition strip :: "string \<Rightarrow> string" where
  "strip s = rev (dropWhile is_space (rev (dropWhile is_space s)))"

definition digit_val :: "char \<Rightarrow> nat option" where
  "digit_val c = (let k = (of_char c :: nat) in if 48 \<le> k \<and> k \<le> 57 then Some (k - 48) else None)"

text \<open>The flag says that a digit must come next: at the start and after an underscore.\<close>

fun int_digits :: "nat \<Rightarrow> bool \<Rightarrow> string \<Rightarrow> nat option" where
  "int_digits acc need [] = (if need then None else Some acc)"
| "int_digits acc need (c # cs) =
     (if c = CHR ''_'' then (if need then None else int_digits acc True cs)
      else case digit_val c of None \<Rightarrow> None | Some d \<Rightarrow> int_digits (10 * acc + d) False cs)"

definition int_of_str :: "string \<Rightarrow> error + int" where
  "int_of_str s =
     (let t = strip s;
          (neg, ds) = (case t of
                         c # cs \<Rightarrow> if c = CHR ''-'' then (True, cs)
                                   else if c = CHR ''+'' then (False, cs) else (False, t)
                       | [] \<Rightarrow> (False, t))
      in case int_digits 0 True ds of
           None \<Rightarrow> Inl ValueError
         | Some n \<Rightarrow> Inr (if neg then - int n else int n))"

section \<open>Prefix codec\<close>

definition ascii_letters :: string where
  "ascii_letters = ''abcdefghijklmnopqrstuvwxyzABCDEFGHIJKLMNOPQRSTUVWXYZ''"

definition digits :: string where
  "digits = ''0123456789''"

definition id_chars :: string where
  "id_chars = sort (ascii_letters @ digits)"

definition get_sid_prefix :: "int \<Rightarrow> error + string" where
  "get_sid_prefix ports_served =
     (let id_a = int_truediv ports_served (int (length id_chars));
          id_b = ports_served - id_a * int (length id_chars)
      in and_then (py_getitem id_chars id_a) (\<lambda>a.
         and_then (py_getitem id_chars id_b) (\<lambda>b. Inr [a, b])))"

section \<open>Port order\<close>

text \<open>
  \<open>port_order\<close> is None, or a list; \<open>not port_order\<close> holds for None and for the empty
  list. \<open>list(range(a, m + 1))\<close> is the integer interval \<open>[a..m]\<close>.
\<close>

definition extend_port_order :: "int list option \<Rightarrow> int \<Rightarrow> int list" where
  "extend_port_order port_order max_length =
     (let port_order = (case port_order of None \<Rightarrow> [] | Some po \<Rightarrow> if po = [] then [] else po)
      in port_order @ [int (length port_order) .. max_length])"

section \<open>Topology state\<close>

datatype switch_cls = FaucetSwitch | NoControllerFaucetSwitch

text \<open>The keyword arguments \<open>addSwitch\<close> stores for a switch node.\<close>

record switch_spec =
  sw_name :: string
  sw_cls :: switch_cls
  sw_datapath :: string
  sw_dpid :: string

record peer_link =
  port :: int
  peer_dpid :: string
  peer_port :: int

text \<open>
  The attributes of the topology object. Datapath ids and switch names are strings;
  \<open>switches\<close> holds the switch nodes handed to the emulation framework (hosts and links
  of its graph are not tracked: no attribute of the topology reads them back).
\<close>

record topo =
  dpid_names :: "string \<rightharpoonup> string"
  switch_dpids :: "string \<rightharpoonup> string"
  switch_ports :: "string \<rightharpoonup> int list"
  switches :: "switch_spec list"
  hw_dpid :: "string option"
  hw_ports :: "int list"
  start_port :: int
  port_order :: "int list"
  switch_to_switch_links :: nat
  switch_peer_links :: "string \<rightharpoonup> peer_link list"

text \<open>
  The object after \<open>__init__\<close>: three empty dictionaries. The other attributes are
  assigned by \<open>build\<close> before anything reads them; \<open>switch_to_switch_links\<close> has the
  class default 1.
\<close>

definition new_topo :: topo where
  "new_topo = \<lparr>dpid_names = Map.empty, switch_dpids = Map.empty, switch_ports = Map.empty,
     switches = [], hw_dpid = None, hw_ports = [], start_port = 5, port_order = [],
     switch_to_switch_links = 1, switch_peer_links = Map.empty\<rparr>"

text \<open>\<open>d[k].append(v)\<close> and \<open>d[k] += 1\<close>.\<close>

definition dict_append :: "('k \<rightharpoonup> 'v list) \<Rightarrow> 'k \<Rightarrow> 'v \<Rightarrow> error + ('k \<rightharpoonup> 'v list)" where
  "dict_append d k v = (case d k of None \<Rightarrow> Inl KeyError | Some xs \<Rightarrow> Inr (d(k \<mapsto> xs @ [v])))"

definition dict_incr :: "('k \<rightharpoonup> nat) \<Rightarrow> 'k \<Rightarrow> error + ('k \<rightharpoonup> nat)" where
  "dict_incr d k = (case d k of None \<Rightarrow> Inl KeyError | Some n \<Rightarrow> Inr (d(k \<mapsto> n + 1)))"

text \<open>A list comprehension whose body may raise.\<close>

fun map_result :: "('a \<Rightarrow> error + 'b) \<Rightarrow> 'a list \<Rightarrow> error + 'b list" where
  "map_result f [] = Inr []"
| "map_result f (x # xs) =
     and_then (f x) (\<lambda>y. and_then (map_result f xs) (\<lambda>ys. Inr (y # ys)))"

section \<open>Switch classes\<close>

text \<open>
  The controllers a switch creates controller entries for when it starts:
  \<open>FaucetSwitch.start\<close> uses the list it is given, \<open>NoControllerFaucetSwitch.start\<close>
  calls it with \<open>controllers=[]\<close>.
\<close>

definition start_controllers :: "switch_cls \<Rightarrow> 'c list \<Rightarrow> 'c list" where
  "start_controllers cls controllers =
     (case cls of FaucetSwitch \<Rightarrow> controllers | NoControllerFaucetSwitch \<Rightarrow> [])"

section \<open>Entity factory\<close>

text \<open>\<open>addHost\<close> and \<open>addSwitch\<close> return the node's name.\<close>

definition add_tagged_host :: "string \<Rightarrow> int \<Rightarrow> nat \<Rightarrow> string" where
  "add_tagged_host sid_prefix tagged_vid host_n = ''t'' @ sid_prefix @ str_nat (host_n + 1)"

definition add_untagged_host :: "string \<Rightarrow> nat \<Rightarrow> string" where
  "add_untagged_host sid_prefix host_n = ''u'' @ sid_prefix @ str_nat (host_n + 1)"

definition addSwitch :: "topo \<Rightarrow> switch_spec \<Rightarrow> topo \<times> string" where
  "addSwitch self spec = (self\<lparr>switches := switches self @ [spec]\<rparr>, sw_name spec)"

text \<open>
  \<open>mininet_dpid\<close> lives in another module and is a parameter here; it may raise.
  \<open>hw_dpid and hw_dpid == dpid\<close>: None and the empty string are false. The log line of
  the hardware branch formats \<open>int(dpid)\<close> and \<open>int(remap_dpid)\<close>; the first is the
  conversion already made, the second reads back the output of \<open>str\<close> and cannot fail.
\<close>

definition add_faucet_switch ::
  "(string \<Rightarrow> error + string) \<Rightarrow> (string \<Rightarrow> error + int) \<Rightarrow> topo \<Rightarrow> string \<Rightarrow> string \<Rightarrow> string option \<Rightarrow> string
     \<Rightarrow> error + (topo \<times> string)" where
  "add_faucet_switch mininet_dpid py_int self sid_prefix dpid hw_dpid' ovs_type =
     (let switch_name = ''s'' @ sid_prefix;
          self1 = self\<lparr>switch_dpids := (switch_dpids self)(switch_name \<mapsto> dpid),
                       dpid_names := (dpid_names self)(dpid \<mapsto> switch_name)\<rparr>
      in and_then
           (if hw_dpid' \<noteq> None \<and> hw_dpid' \<noteq> Some [] \<and> hw_dpid' = Some dpid
            then and_then (py_int dpid) (\<lambda>n. Inr (py_str (n + 1), NoControllerFaucetSwitch))
            else Inr (dpid, FaucetSwitch))
           (\<lambda>(dpid1, switch_cls).
              and_then (mininet_dpid dpid1) (\<lambda>md.
                Inr (addSwitch self1 \<lparr>sw_name = switch_name, sw_cls = switch_cls,
                                       sw_datapath = ovs_type, sw_dpid = md\<rparr>))))"

section \<open>Hardware port remapper\<close>

definition hw_remap_port :: "topo \<Rightarrow> string \<Rightarrow> int \<Rightarrow> error + int" where
  "hw_remap_port self dpid portno =
     (if Some dpid \<noteq> hw_dpid self then Inr portno
      else if hw_ports self = [] then Inl AssertionError
      else py_getitem (hw_ports self) (portno - start_port self))"

definition hw_remap_peer_link :: "topo \<Rightarrow> string \<Rightarrow> peer_link \<Rightarrow> error + peer_link" where
  "hw_remap_peer_link self dpid link =
     and_then (hw_remap_port self dpid (port link)) (\<lambda>p.
     and_then (hw_remap_port self (peer_dpid link) (peer_port link)) (\<lambda>pp.
       Inr \<lparr>port = p, peer_dpid = peer_dpid link, peer_port = pp\<rparr>))"

definition dpid_ports :: "topo \<Rightarrow> string \<Rightarrow> error + int list" where
  "dpid_ports self dpid =
     and_then (py_lookup (dpid_names self) dpid) (\<lambda>name.
     and_then (py_lookup (switch_ports self) name) (\<lambda>ports.
       map_result (hw_remap_port self dpid) ports))"

definition dpid_peer_links :: "topo \<Rightarrow> string \<Rightarrow> error + peer_link list" where
  "dpid_peer_links self dpid =
     and_then (py_lookup (dpid_names self) dpid) (\<lambda>name.
     and_then (py_lookup (switch_peer_links self) name) (\<lambda>links.
       map_result (hw_remap_peer_link self dpid) links))"

section \<open>Link builder\<close>

text \<open>
  The inner loop of \<open>_add_links\<close> (\<open>links_per_host\<close> iterations for one host), the
  outer loop over the hosts, and the method. The running \<open>index\<close> is returned.
\<close>

fun add_links_host :: "topo \<Rightarrow> string \<Rightarrow> nat \<Rightarrow> nat \<Rightarrow> error + (topo \<times> nat)" where
  "add_links_host self switch 0 index = Inr (self, index)"
| "add_links_host self switch (Suc n) index =
     and_then (py_getitem (port_order self) (int index)) (\<lambda>off.
     and_then (dict_append (setdefault (switch_ports self) switch []) switch
                 (start_port self + off)) (\<lambda>sp.
       add_links_host (self\<lparr>switch_ports := sp\<rparr>) switch n (index + 1)))"

fun add_links_hosts ::
  "topo \<Rightarrow> string \<Rightarrow> string list \<Rightarrow> nat \<Rightarrow> nat \<Rightarrow> error + (topo \<times> nat)" where
  "add_links_hosts self switch [] links_per_host index = Inr (self, index)"
| "add_links_hosts self switch (host # hosts) links_per_host index =
     and_then (add_links_host self switch links_per_host index) (\<lambda>(self1, index1).
       add_links_hosts self1 switch hosts links_per_host index1)"

definition add_links :: "topo \<Rightarrow> string \<Rightarrow> string list \<Rightarrow> nat \<Rightarrow> error + (topo \<times> nat)" where
  "add_links self switch hosts links_per_host =
     add_links_hosts (self\<lparr>switch_ports := setdefault (switch_ports self) switch []\<rparr>)
       switch hosts links_per_host 0"

section \<open>Chain and ring builder\<close>

text \<open>
  \<open>addLinks\<close>: the loop body runs \<open>switch_to_switch_links\<close> times; \<open>next_index\<close> is the
  dictionary local to \<open>build\<close>, passed through.
\<close>

fun addLinks_loop ::
  "nat \<Rightarrow> topo \<Rightarrow> string \<Rightarrow> string \<Rightarrow> string \<Rightarrow> string \<Rightarrow> (string \<rightharpoonup> nat)
     \<Rightarrow> error + (topo \<times> (string \<rightharpoonup> nat))" where
  "addLinks_loop 0 self src dst dpid1 dpid2 next_index = Inr (self, next_index)"
| "addLinks_loop (Suc n) self src dst dpid1 dpid2 next_index =
     and_then (py_lookup next_index src) (\<lambda>index1.
     and_then (py_lookup next_index dst) (\<lambda>index2.
     and_then (py_getitem (port_order self) (int index1)) (\<lambda>off1.
     and_then (py_getitem (port_order self) (int index2)) (\<lambda>off2.
     let port1 = start_port self + off1; port2 = start_port self + off2 in
     and_then (dict_append (switch_ports self) src port1) (\<lambda>sp1.
     and_then (dict_append sp1 dst port2) (\<lambda>sp2.
     and_then (dict_append (switch_peer_links self) src
                 \<lparr>port = port1, peer_dpid = dpid2, peer_port = port2\<rparr>) (\<lambda>pl1.
     and_then (dict_append pl1 dst
                 \<lparr>port = port2, peer_dpid = dpid1, peer_port = port1\<rparr>) (\<lambda>pl2.
     and_then (dict_incr next_index src) (\<lambda>ni1.
     and_then (dict_incr ni1 dst) (\<lambda>ni2.
       addLinks_loop n (self\<lparr>switch_ports := sp2, switch_peer_links := pl2\<rparr>)
         src dst dpid1 dpid2 ni2))))))))))"

definition addLinks ::
  "topo \<Rightarrow> string \<Rightarrow> string \<Rightarrow> (string \<rightharpoonup> nat) \<Rightarrow> error + (topo \<times> (string \<rightharpoonup> nat))" where
  "addLinks self src dst next_index =
     (let self1 = self\<lparr>switch_peer_links :=
                    setdefault (setdefault (switch_peer_links self) src []) dst []\<rparr>
      in and_then (py_lookup (switch_dpids self1) src) (\<lambda>dpid1.
         and_then (py_lookup (switch_dpids self1) dst) (\<lambda>dpid2.
           addLinks_loop (switch_to_switch_links self1) self1 src dst dpid1 dpid2 next_index)))"

text \<open>
  The assignments at the head of \<open>build\<close>. \<open>switch_map\<close> is a dictionary given by its
  items; \<open>sorted(switch_map)\<close> is the sorted list of its keys. The counts are natural
  numbers.
\<close>

definition build_init ::
  "topo \<Rightarrow> nat \<Rightarrow> nat \<Rightarrow> nat \<Rightarrow> nat \<Rightarrow> string option \<Rightarrow> (int \<times> string) list option \<Rightarrow> int
     \<Rightarrow> int list option \<Rightarrow> topo" where
  "build_init self n_tagged n_untagged links_per_host switch_to_switch_links' hw_dpid'
       switch_map start_port' port_order' =
     self\<lparr>hw_dpid := hw_dpid',
          hw_ports := (case switch_map of None \<Rightarrow> [] | Some m \<Rightarrow> sort (remdups (map fst m))),
          start_port := start_port',
          switch_to_switch_links := switch_to_switch_links',
          port_order := extend_port_order port_order'
             (int ((n_tagged + n_untagged) * links_per_host + 2 * switch_to_switch_links')),
          switch_peer_links := Map.empty\<rparr>"

text \<open>
  One iteration of the loop over \<open>dpids\<close>. The loop state is the object together with the
  locals \<open>first_switch\<close>, \<open>last_switch\<close> and \<open>next_index\<close>; \<open>serialno\<close> is the allocator's
  reply for this switch. With \<open>last_switch\<close> None, \<open>addLinks\<close> would look None up in
  \<open>switch_dpids\<close>, a KeyError.
\<close>

type_synonym build_state = "topo \<times> string option \<times> string option \<times> (string \<rightharpoonup> nat)"

definition build_switch ::
  "(string \<Rightarrow> error + string) \<Rightarrow> (string \<Rightarrow> error + int) \<Rightarrow> string \<Rightarrow> nat \<Rightarrow> int \<Rightarrow> nat \<Rightarrow> nat \<Rightarrow> string option
     \<Rightarrow> build_state \<Rightarrow> string \<Rightarrow> int \<Rightarrow> error + build_state" where
  "build_switch mininet_dpid py_int ovs_type n_tagged tagged_vid n_untagged links_per_host hw_dpid'
       bs dpid serialno =
     (case bs of (self, first_switch, last_switch, next_index) \<Rightarrow>
      and_then (get_sid_prefix serialno) (\<lambda>sid_prefix.
      let tagged = map (add_tagged_host sid_prefix tagged_vid) [0..<n_tagged];
          untagged = map (add_untagged_host sid_prefix) [0..<n_untagged] in
      and_then (add_faucet_switch mininet_dpid py_int self sid_prefix dpid hw_dpid' ovs_type)
        (\<lambda>(self1, switch).
      and_then (add_links self1 switch (tagged @ untagged) links_per_host)
        (\<lambda>(self2, index).
      let next_index1 = next_index(switch \<mapsto> index) in
      (case first_switch of
         None \<Rightarrow> Inr (self2, Some switch, Some switch, next_index1)
       | Some first_sw \<Rightarrow>
           (case last_switch of
              None \<Rightarrow> Inl KeyError
            | Some last_sw \<Rightarrow>
                and_then (addLinks self2 last_sw switch next_index1) (\<lambda>(self3, next_index2).
                  Inr (self3, first_switch, Some switch, next_index2))))))))"

text \<open>
  The loop: \<open>get_serialno k\<close> is the reply to the \<open>k\<close>-th request made to the allocator
  during this build.
\<close>

fun build_loop ::
  "(string \<Rightarrow> error + string) \<Rightarrow> (string \<Rightarrow> error + int) \<Rightarrow> string \<Rightarrow> nat \<Rightarrow> int \<Rightarrow> nat \<Rightarrow> nat \<Rightarrow> string option
     \<Rightarrow> (nat \<Rightarrow> int) \<Rightarrow> nat \<Rightarrow> build_state \<Rightarrow> string list \<Rightarrow> error + build_state" where
  "build_loop mininet_dpid py_int ovs_type n_tagged tagged_vid n_untagged links_per_host hw_dpid'
       get_serialno k bs [] = Inr bs"
| "build_loop mininet_dpid py_int ovs_type n_tagged tagged_vid n_untagged links_per_host hw_dpid'
       get_serialno k bs (dpid # dpids) =
     and_then (build_switch mininet_dpid py_int ovs_type n_tagged tagged_vid n_untagged
                 links_per_host hw_dpid' bs dpid (get_serialno k)) (\<lambda>bs1.
       build_loop mininet_dpid py_int ovs_type n_tagged tagged_vid n_untagged links_per_host
         hw_dpid' get_serialno (Suc k) bs1 dpids)"

text \<open>
  \<open>FaucetStringOfDPSwitchTopo.build\<close>, on the object \<open>self\<close>. With no switch built,
  \<open>first_switch\<close> is None and closing the ring raises KeyError.
\<close>

definition build ::
  "(string \<Rightarrow> error + string) \<Rightarrow> (string \<Rightarrow> error + int) \<Rightarrow> topo \<Rightarrow> string \<Rightarrow> string list \<Rightarrow> nat \<Rightarrow> int \<Rightarrow> nat \<Rightarrow> nat
     \<Rightarrow> nat \<Rightarrow> string option \<Rightarrow> (int \<times> string) list option \<Rightarrow> bool \<Rightarrow> int
     \<Rightarrow> int list option \<Rightarrow> (nat \<Rightarrow> int) \<Rightarrow> error + topo" where
  "build mininet_dpid py_int self ovs_type dpids n_tagged tagged_vid n_untagged links_per_host
       switch_to_switch_links' hw_dpid' switch_map stack_ring start_port' port_order'
       get_serialno =
     (let self0 = build_init self n_tagged n_untagged links_per_host switch_to_switch_links'
                    hw_dpid' switch_map start_port' port_order'
      in and_then (build_loop mininet_dpid py_int ovs_type n_tagged tagged_vid n_untagged
                     links_per_host hw_dpid' get_serialno 0
                     (self0, None, None, Map.empty) dpids)
           (\<lambda>(self1, first_switch, last_switch, next_index).
              if stack_ring then
                (case first_switch of
                   None \<Rightarrow> Inl KeyError
                 | Some first_sw \<Rightarrow>
                     (case last_switch of
                        None \<Rightarrow> Inl KeyError
                      | Some last_sw \<Rightarrow>
                          and_then (addLinks self1 first_sw last_sw next_index)
                            (\<lambda>(self2, next_index1). Inr self2)))
              else Inr self1))"

section \<open>Invariant of the chain builder\<close>

text \<open>
  \<open>sw_len H K k j\<close> is the number of ports of the switch at position \<open>j\<close> once \<open>k\<close>
  switches are built: \<open>H\<close> host ports, \<open>K\<close> towards the previous switch unless it is
  the first, \<open>K\<close> towards the next one unless it is the last so far.

  \<open>chain_inv\<close> is the invariant of the loop of \<open>build\<close> after \<open>k\<close> iterations, for
  switch names \<open>nm 0, nm 1, \<dots>\<close> and datapath ids \<open>D\<close>; \<open>self0\<close> is the object when the
  loop starts.
\<close>

definition sw_len :: "nat \<Rightarrow> nat \<Rightarrow> nat \<Rightarrow> nat \<Rightarrow> nat" where
  "sw_len H K k j = H + (if 0 < j then K else 0) + (if j + 1 < k then K else 0)"

definition chain_inv :: "topo \<Rightarrow> nat \<Rightarrow> (nat \<Rightarrow> string) \<Rightarrow> string list \<Rightarrow> nat \<Rightarrow> build_state \<Rightarrow> bool" where
  "chain_inv self0 H nm D k bs =
     (case bs of (st, first_switch, last_switch, next_index) \<Rightarrow>
        start_port st = start_port self0 \<and> port_order st = port_order self0
      \<and> switch_to_switch_links st = switch_to_switch_links self0
      \<and> hw_dpid st = hw_dpid self0 \<and> hw_ports st = hw_ports self0
      \<and> first_switch = (if k = 0 then None else Some (nm 0))
      \<and> last_switch = (if k = 0 then None else Some (nm (k - 1)))
      \<and> (\<forall>j<k. switch_ports st (nm j)
                   = Some (map (\<lambda>i. start_port self0 + port_order self0 ! i)
                             [0..<sw_len H (switch_to_switch_links self0) k j])
              \<and> next_index (nm j) = Some (sw_len H (switch_to_switch_links self0) k j)
              \<and> switch_dpids st (nm j) = Some (D ! j)
              \<and> (2 \<le> k \<longrightarrow> switch_peer_links st (nm j) \<noteq> None)
              \<and> length (case switch_peer_links st (nm j) of None \<Rightarrow> [] | Some ls \<Rightarrow> ls)
                   = sw_len H (switch_to_switch_links self0) k j - H)
      \<and> (\<forall>n. n \<notin> nm ` {..<k} \<longrightarrow> switch_ports st n = None \<and> switch_peer_links st n = None))"

text \<open>
  The mirror invariant of the peer-link tables: a record \<open>(port, pd, pp)\<close> stored under a
  switch with datapath id \<open>d\<close> has its mirror \<open>(pp, d, port)\<close> in the list of a switch
  whose datapath id is \<open>pd\<close>.

  \<open>names_inv\<close> is the invariant that ties the two name dictionaries together while the
  datapath ids are pairwise distinct: every recorded switch is found under its datapath
  id, and the datapath ids recorded so far are those of the first \<open>k\<close> positions.
\<close>

definition peer_links_mirrored :: "topo \<Rightarrow> bool" where
  "peer_links_mirrored st =
     (\<forall>A d ls l. switch_dpids st A = Some d \<longrightarrow> switch_peer_links st A = Some ls \<longrightarrow> l \<in> set ls
        \<longrightarrow> (\<exists>B ls'. switch_dpids st B = Some (peer_dpid l) \<and> switch_peer_links st B = Some ls'
               \<and> \<lparr>port = peer_port l, peer_dpid = d, peer_port = port l\<rparr> \<in> set ls'))"

definition names_inv :: "string list \<Rightarrow> nat \<Rightarrow> topo \<Rightarrow> bool" where
  "names_inv D k st =
     ((\<forall>A d. switch_dpids st A = Some d \<longrightarrow> dpid_names st d = Some A)
      \<and> dom (dpid_names st) \<subseteq> set (take k D))"

section \<open>Example contexts\<close>

text \<open>
  A hardware remap context with hardware datapath \<open>1\<close>, front-panel ports 10, 20 and 30
  and the default start port, and one whose switch map is absent.
\<close>

definition hw_topo :: topo where
  "hw_topo = build_init new_topo 0 0 0 1 (Some ''1'')
               (Some [(30, ''c''), (10, ''a''), (20, ''b'')]) 5 None"

definition hw_topo_no_ports :: topo where
  "hw_topo_no_ports = build_init new_topo 0 0 0 1 (Some ''1'') None 5 None"


text \<open>
  Builds of three switches with datapath ids 1, 2, 3 and no hardware switch, for the
  allocator replies 0, 1, 2 and the identity in place of \<open>mininet_dpid\<close>.
\<close>

definition example_serialno :: "nat \<Rightarrow> int" where
  "example_serialno k = int k"

definition example_build :: "nat \<Rightarrow> nat \<Rightarrow> nat \<Rightarrow> bool \<Rightarrow> error + topo" where
  "example_build n_untagged links_per_host k ring =
     build Inr int_of_str new_topo ''system'' [''1'', ''2'', ''3''] 0 100 n_untagged links_per_host k
       None None ring 5 None example_serialno"

text \<open>
  The \<open>peer_dpid\<close>s of what \<open>dpid_peer_links\<close> returns for a datapath id after a ring
  build with two untagged hosts per switch, one link per host and the replies 0, 1, 2, \<dots>
\<close>

definition example_ring_peer_dpids ::
  "string list \<Rightarrow> nat \<Rightarrow> string option \<Rightarrow> string \<Rightarrow> error + string list" where
  "example_ring_peer_dpids dpids k hw dpid =
     and_then (build Inr int_of_str new_topo ''system'' dpids 0 100 2 1 k hw None True 5 None
                 example_serialno)
       (\<lambda>st. and_then (dpid_peer_links st dpid) (\<lambda>links. Inr (map peer_dpid links)))"

section \<open>Properties of the prefix codec\<close>

lemma id_chars_eq:
  "id_chars = ''0123456789ABCDEFGHIJKLMNOPQRSTUVWXYZabcdefghijklmnopqrstuvwxyz''"
  unfolding id_chars_def ascii_letters_def digits_def by code_simp

lemma length_id_chars: "length id_chars = 62"
  by (simp add: id_chars_eq)

lemma distinct_id_chars: "distinct id_chars"
  by (simp add: id_chars_eq)

lemma get_sid_prefix_in_range:
  assumes "0 \<le> s" "s < 3844"
  shows "get_sid_prefix s = Inr [id_chars ! nat (s div 62), id_chars ! nat (s mod 62)]"
proof -
  have a: "int_truediv s 62 = s div 62" using assms by (simp add: int_truediv_def)
  have b: "s - (s div 62) * 62 = s mod 62" by (simp add: minus_div_mult_eq_mod)
  have c: "0 \<le> s div 62" "s div 62 < 62" using assms by auto
  have d: "0 \<le> s mod 62" "s mod 62 < 62" by auto
  show ?thesis
    unfolding get_sid_prefix_def length_id_chars Let_def
    using c d by (simp add: a b py_getitem_def and_then_def length_id_chars)
qed

lemma get_sid_prefix_inj:
  assumes "0 \<le> s1" "s1 < 3844" "0 \<le> s2" "s2 < 3844"
      and eq: "get_sid_prefix s1 = get_sid_prefix s2"
  shows "s1 = s2"
proof -
  have b1: "nat (s1 div 62) < length id_chars" "nat (s2 div 62) < length id_chars"
    using assms by (auto simp: length_id_chars)
  have b2: "nat (s1 mod 62) < length id_chars" "nat (s2 mod 62) < length id_chars"
    by (auto simp: length_id_chars)
  from eq have e1: "id_chars ! nat (s1 div 62) = id_chars ! nat (s2 div 62)"
    and e2: "id_chars ! nat (s1 mod 62) = id_chars ! nat (s2 mod 62)"
    using assms(1-4) by (simp_all add: get_sid_prefix_in_range)
  have "nat (s1 div 62) = nat (s2 div 62)"
    using e1 b1 distinct_id_chars by (simp add: nth_eq_iff_index_eq)
  moreover have "nat (s1 mod 62) = nat (s2 mod 62)"
    using e2 b2 distinct_id_chars by (simp add: nth_eq_iff_index_eq)
  ultimately have "s1 div 62 = s2 div 62" "s1 mod 62 = s2 mod 62"
    using assms by (simp_all add: eq_nat_nat_iff)
  then show "s1 = s2" by (metis mult_div_mod_eq)
qed

text \<open>
  Serial numbers that are pairwise distinct and below the capacity of the codec give
  the switches of a build pairwise distinct prefixes.
\<close>

lemma allocator_prefixes:
  assumes r: "\<forall>i<n. 0 \<le> gs i \<and> gs i < 3844" and inj: "inj_on gs {..<n}"
  shows "(\<forall>i<n. get_sid_prefix (gs i)
                   = Inr [id_chars ! nat (gs i div 62), id_chars ! nat (gs i mod 62)])
       \<and> inj_on (\<lambda>i. [id_chars ! nat (gs i div 62), id_chars ! nat (gs i mod 62)]) {..<n}"
proof
  show a: "\<forall>i<n. get_sid_prefix (gs i)
                   = Inr [id_chars ! nat (gs i div 62), id_chars ! nat (gs i mod 62)]"
    using r by (simp add: get_sid_prefix_in_range)
  show "inj_on (\<lambda>i. [id_chars ! nat (gs i div 62), id_chars ! nat (gs i mod 62)]) {..<n}"
  proof (rule inj_onI)
    fix i j assume i: "i \<in> {..<n}" and j: "j \<in> {..<n}"
      and e: "[id_chars ! nat (gs i div 62), id_chars ! nat (gs i mod 62)]
            = [id_chars ! nat (gs j div 62), id_chars ! nat (gs j mod 62)]"
    have "get_sid_prefix (gs i) = get_sid_prefix (gs j)"
      using a i j e by simp
    then have g: "gs i = gs j"
      using r i j by (intro get_sid_prefix_inj) simp_all
    from inj g i j show "i = j" by (rule inj_onD)
  qed
qed

text \<open>
  C1: for serial numbers \<open>0 \<le> s1, s2 < 3844\<close> with \<open>s1 \<noteq> s2\<close>, the prefix codec returns
  the two characters \<open>id_chars[s div 62]\<close>, \<open>id_chars[s mod 62]\<close> of the sorted
  62-character alphabet, and the two prefixes differ.
\<close>

theorem sid_prefix_injective:
  assumes "0 \<le> s1" "s1 < 3844" "0 \<le> s2" "s2 < 3844" "s1 \<noteq> s2"
  shows "get_sid_prefix s1 = Inr [id_chars ! nat (s1 div 62), id_chars ! nat (s1 mod 62)]
       \<and> get_sid_prefix s2 = Inr [id_chars ! nat (s2 div 62), id_chars ! nat (s2 mod 62)]
       \<and> get_sid_prefix s1 \<noteq> get_sid_prefix s2"
  using assms get_sid_prefix_inj [of s1 s2] by (auto simp: get_sid_prefix_in_range)

theorem sid_prefix_injective_witness:
  "get_sid_prefix 61 = Inr ''0z'' \<and> get_sid_prefix 62 = Inr ''10''
   \<and> get_sid_prefix 61 \<noteq> get_sid_prefix 62"
  using sid_prefix_injective [of 61 62] by (simp add: id_chars_eq)

section \<open>Properties of the port order\<close>

text \<open>
  C2, as stated, fails: a seed longer than \<open>n + 1\<close> is returned as it is. Here the seed
  has three elements and \<open>n = 0\<close>.
\<close>

theorem extend_port_order_counterexample:
  "length (extend_port_order (Some [0, 1, 2]) 0) \<noteq> 0 + 1"
  by (simp add: extend_port_order_def)

text \<open>
  C2, amended: the result is the seed followed by \<open>len(seed), \<dots>, n\<close> in ascending order,
  so the seed is a prefix of it; its length is the larger of \<open>len(seed)\<close> and \<open>n + 1\<close>,
  which is exactly \<open>n + 1\<close> whenever the seed has at most \<open>n + 1\<close> elements.
\<close>

theorem extend_port_order_spec:
  "(let s = (case seed of None \<Rightarrow> [] | Some po \<Rightarrow> po);
        r = extend_port_order seed n
    in r = s @ [int (length s)..n]
     \<and> take (length s) r = s
     \<and> int (length r) = max (int (length s)) (n + 1)
     \<and> (int (length s) \<le> n + 1 \<longrightarrow> int (length r) = n + 1))"
  by (cases seed) (auto simp: extend_port_order_def Let_def length_upto)

theorem extend_port_order_spec_witness:
  "extend_port_order (Some [3, 1]) 4 = [3, 1, 2, 3, 4]
   \<and> int (length [3, 1 :: int]) \<le> 4 + 1
   \<and> int (length (extend_port_order (Some [3, 1]) 4)) = 4 + 1"
  using extend_port_order_spec [of "Some [3, 1]" 4] by (simp add: Let_def upto.simps)

section \<open>Properties of the hardware port remapper\<close>

lemma hw_topo_simps:
  "hw_dpid hw_topo = Some ''1''" "hw_ports hw_topo = [10, 20, 30]" "start_port hw_topo = 5"
  by (simp_all add: hw_topo_def build_init_def)

lemma build_init_hw_ports_sorted:
  "sorted (hw_ports (build_init self nt nu l k hw sm sp po))"
  by (simp add: build_init_def split: option.splits)

lemma sorted_last_max: "sorted xs \<Longrightarrow> x \<in> set xs \<Longrightarrow> x \<le> last xs"
  by (induction xs) auto

text \<open>
  C3: \<open>hw_remap_port\<close> returns the port unchanged for a dpid other than the hardware
  dpid; for the hardware dpid, a non-empty \<open>hw_ports\<close> and
  \<open>start_port \<le> port < start_port + len(hw_ports)\<close> it returns
  \<open>hw_ports[port - start_port]\<close>; in particular \<open>start_port\<close> maps to \<open>hw_ports[0]\<close>.
\<close>

theorem hw_remap_port_spec:
  "(Some dpid \<noteq> hw_dpid self \<longrightarrow> hw_remap_port self dpid portno = Inr portno)
   \<and> (Some dpid = hw_dpid self \<and> hw_ports self \<noteq> []
        \<and> start_port self \<le> portno \<and> portno < start_port self + int (length (hw_ports self))
      \<longrightarrow> hw_remap_port self dpid portno = Inr (hw_ports self ! nat (portno - start_port self)))
   \<and> (Some dpid = hw_dpid self \<and> hw_ports self \<noteq> []
      \<longrightarrow> hw_remap_port self dpid (start_port self) = Inr (hw_ports self ! 0))"
  by (auto simp: hw_remap_port_def py_getitem_def Let_def)

theorem hw_remap_port_spec_witness:
  "hw_remap_port hw_topo ''2'' 6 = Inr 6 \<and> hw_remap_port hw_topo ''1'' 6 = Inr 20
   \<and> hw_remap_port hw_topo ''1'' 5 = Inr 10"
  using hw_remap_port_spec [of "''2''" hw_topo 6] hw_remap_port_spec [of "''1''" hw_topo 6]
  by (simp add: hw_topo_simps)

text \<open>
  C4: for the hardware dpid and an empty \<open>hw_ports\<close>, \<open>hw_remap_port\<close> fails with an
  AssertionError whatever the port; for any other dpid it returns the port, whether or
  not \<open>hw_ports\<close> is empty.
\<close>

theorem hw_remap_port_assert:
  "(Some dpid = hw_dpid self \<and> hw_ports self = []
      \<longrightarrow> hw_remap_port self dpid portno = Inl AssertionError)
   \<and> (Some dpid \<noteq> hw_dpid self \<longrightarrow> hw_remap_port self dpid portno = Inr portno)"
  by (simp add: hw_remap_port_def)

theorem hw_remap_port_assert_witness:
  "hw_remap_port hw_topo_no_ports ''1'' 5 = Inl AssertionError
   \<and> hw_remap_port hw_topo_no_ports ''2'' 5 = Inr 5"
  using hw_remap_port_assert [of "''1''" hw_topo_no_ports 5]
        hw_remap_port_assert [of "''2''" hw_topo_no_ports 5]
  by (simp add: hw_topo_no_ports_def build_init_def)

text \<open>
  C10, as stated, fails in its last part: an index below \<open>-len(hw_ports)\<close> is out of
  range too. With three hardware ports and start port 5, port 1 gives index \<open>-4\<close>.
\<close>

theorem hw_remap_port_negative_counterexample:
  "hw_remap_port hw_topo ''1'' 1 = Inl IndexError
   \<and> \<not> (1 - start_port hw_topo \<ge> int (length (hw_ports hw_topo)))"
  by (simp add: hw_remap_port_def hw_topo_simps py_getitem_def)

text \<open>
  C10, amended: for the hardware dpid and a non-empty \<open>hw_ports\<close>, a port with
  \<open>start_port - len(hw_ports) \<le> port < start_port\<close> does not fail: the negative index
  counts from the end of the list, and \<open>start_port - 1\<close> gives the last element, the
  largest hardware port of a sorted list. An IndexError occurs exactly when
  \<open>port - start_port \<ge> len(hw_ports)\<close> or \<open>port - start_port < -len(hw_ports)\<close>.
\<close>

theorem hw_remap_port_negative:
  assumes "Some dpid = hw_dpid self" "hw_ports self \<noteq> []"
  shows "(start_port self - int (length (hw_ports self)) \<le> portno \<and> portno < start_port self
            \<longrightarrow> hw_remap_port self dpid portno
                = Inr (hw_ports self ! nat (int (length (hw_ports self)) + (portno - start_port self))))
       \<and> hw_remap_port self dpid (start_port self - 1) = Inr (last (hw_ports self))
       \<and> (sorted (hw_ports self) \<longrightarrow> (\<forall>x \<in> set (hw_ports self). x \<le> last (hw_ports self)))
       \<and> (hw_remap_port self dpid portno = Inl IndexError
            \<longleftrightarrow> portno - start_port self \<ge> int (length (hw_ports self))
                \<or> portno - start_port self < - int (length (hw_ports self)))
       \<and> hw_remap_port self dpid portno \<noteq> Inl AssertionError"
proof -
  have l: "hw_ports self ! (length (hw_ports self) - 1) = last (hw_ports self)"
    using assms(2) by (simp add: last_conv_nth)
  have n: "nat (int (length (hw_ports self)) - 1) = length (hw_ports self) - 1"
    by simp
  have p: "1 \<le> int (length (hw_ports self))"
    using assms(2) by (cases "hw_ports self") simp_all
  have a: "hw_remap_port self dpid (start_port self - 1) = Inr (last (hw_ports self))"
    using assms l p by (simp add: hw_remap_port_def py_getitem_def n)
  show ?thesis
    using assms a by (auto simp: hw_remap_port_def py_getitem_def Let_def sorted_last_max)
qed

theorem hw_remap_port_negative_witness:
  "hw_remap_port hw_topo ''1'' 3 = Inr 20 \<and> hw_remap_port hw_topo ''1'' 4 = Inr 30
   \<and> sorted (hw_ports hw_topo) \<and> Max (set (hw_ports hw_topo)) = 30
   \<and> hw_remap_port hw_topo ''1'' 8 = Inl IndexError"
  using hw_remap_port_negative [of "''1''" hw_topo 3] hw_remap_port_negative [of "''1''" hw_topo 8]
  by (simp add: hw_topo_simps)

section \<open>Properties of the switch factory\<close>

text \<open>
  C9: a switch created for the hardware dpid (a non-empty \<open>hw_dpid\<close> equal to its dpid)
  has the class without controllers, which starts with an empty controller list, and the
  datapath id \<open>mininet_dpid(str(int(dpid) + 1))\<close>; any other switch has the
  controller-connected class, which starts with the controllers it is given, and the
  datapath id \<open>mininet_dpid(dpid)\<close>. In both cases the name is \<open>s<prefix>\<close> and the
  dictionaries record the original dpid. This holds for whatever \<open>int\<close> and
  \<open>mininet_dpid\<close> compute.
\<close>

theorem add_faucet_switch_spec:
  assumes "add_faucet_switch mininet_dpid py_int self sid_prefix dpid hw_dpid' ovs_type = Inr (self', nm)"
  shows "\<exists>spec. switches self' = switches self @ [spec]
           \<and> nm = ''s'' @ sid_prefix \<and> sw_name spec = nm \<and> sw_datapath spec = ovs_type
           \<and> switch_dpids self' nm = Some dpid \<and> dpid_names self' dpid = Some nm
           \<and> (if hw_dpid' = Some dpid \<and> dpid \<noteq> []
              then sw_cls spec = NoControllerFaucetSwitch
                 \<and> start_controllers (sw_cls spec) controllers = []
                 \<and> (\<exists>n. py_int dpid = Inr n \<and> mininet_dpid (py_str (n + 1)) = Inr (sw_dpid spec))
              else sw_cls spec = FaucetSwitch
                 \<and> start_controllers (sw_cls spec) controllers = controllers
                 \<and> mininet_dpid dpid = Inr (sw_dpid spec))"
  using assms
  by (auto simp: add_faucet_switch_def addSwitch_def and_then_def Let_def start_controllers_def
           split: sum.splits if_splits prod.splits)

theorem add_faucet_switch_spec_witness:
  "\<exists>self1 self2 spec1 spec2.
      add_faucet_switch Inr int_of_str new_topo ''00'' ''79'' (Some ''79'') ''system'' = Inr (self1, ''s00'')
    \<and> switches self1 = [spec1] \<and> sw_cls spec1 = NoControllerFaucetSwitch
    \<and> start_controllers (sw_cls spec1) [''c1''] = [] \<and> sw_dpid spec1 = ''80''
    \<and> add_faucet_switch Inr int_of_str new_topo ''01'' ''78'' (Some ''79'') ''system'' = Inr (self2, ''s01'')
    \<and> switches self2 = [spec2] \<and> sw_cls spec2 = FaucetSwitch
    \<and> start_controllers (sw_cls spec2) [''c1''] = [''c1''] \<and> sw_dpid spec2 = ''78''"
proof -
  have i: "int_of_str ''79'' = Inr 79" by code_simp
  have s: "py_str 80 = ''80''" by code_simp
  obtain self1 where r1:
    "add_faucet_switch Inr int_of_str new_topo ''00'' ''79'' (Some ''79'') ''system'' = Inr (self1, ''s00'')"
    by (simp add: add_faucet_switch_def addSwitch_def and_then_def Let_def i)
  obtain self2 where r2:
    "add_faucet_switch Inr int_of_str new_topo ''01'' ''78'' (Some ''79'') ''system'' = Inr (self2, ''s01'')"
    by (simp add: add_faucet_switch_def addSwitch_def and_then_def Let_def)
  from add_faucet_switch_spec [OF r1, of "[''c1'']"] obtain spec1 where
    "switches self1 = switches new_topo @ [spec1]" "sw_cls spec1 = NoControllerFaucetSwitch"
    "start_controllers (sw_cls spec1) [''c1''] = []" "sw_dpid spec1 = ''80''"
    using i s by auto
  moreover from add_faucet_switch_spec [OF r2, of "[''c1'']"] obtain spec2 where
    "switches self2 = switches new_topo @ [spec2]" "sw_cls spec2 = FaucetSwitch"
    "start_controllers (sw_cls spec2) [''c1''] = [''c1'']" "sw_dpid spec2 = ''78''"
    by auto
  ultimately show ?thesis using r1 r2 by (simp add: new_topo_def)
qed

text \<open>
  The reading of \<open>int\<close> used in the examples drops whitespace and underscores, so a
  hardware dpid written with them is remapped as well.
\<close>

lemma int_of_str_examples:
  "int_of_str '' 79 '' = Inr 79" "int_of_str ''7_9'' = Inr 79" "int_of_str ''-12'' = Inr (- 12)"
  "int_of_str ''7__9'' = Inl ValueError" "int_of_str ''_79'' = Inl ValueError"
  "int_of_str [] = Inl ValueError"
  by code_simp+

lemma add_faucet_switch_spaced_dpid:
  "\<exists>self1 spec.
      add_faucet_switch Inr int_of_str new_topo ''00'' '' 79 '' (Some '' 79 '') ''system''
        = Inr (self1, ''s00'')
    \<and> switches self1 = [spec] \<and> sw_cls spec = NoControllerFaucetSwitch
    \<and> sw_dpid spec = ''80''"
proof -
  have i: "int_of_str '' 79 '' = Inr 79" by code_simp
  have s: "py_str 80 = ''80''" by code_simp
  show ?thesis
    by (simp add: add_faucet_switch_def addSwitch_def and_then_def Let_def i s new_topo_def)
qed

section \<open>The link builder in closed form\<close>

lemma py_getitem_nat: "i < length xs \<Longrightarrow> py_getitem xs (int i) = Inr (xs ! i)"
  by (simp add: py_getitem_def)

lemma add_faucet_switch_result:
  assumes "add_faucet_switch md pint self p dpid hw ovs = Inr (self1, nm)"
  shows "nm = ''s'' @ p \<and> (\<exists>spec. self1 = self\<lparr>switch_dpids := (switch_dpids self)(nm \<mapsto> dpid),
            dpid_names := (dpid_names self)(dpid \<mapsto> nm), switches := switches self @ [spec]\<rparr>)"
  using assms
  by (auto simp: add_faucet_switch_def addSwitch_def and_then_def Let_def
           split: sum.splits if_splits prod.splits)

lemma add_links_host_result:
  assumes "switch_ports self sw = Some ps" "idx + n \<le> length (port_order self)"
  shows "add_links_host self sw n idx =
           Inr (self\<lparr>switch_ports := (switch_ports self)(sw \<mapsto>
                    ps @ map (\<lambda>i. start_port self + port_order self ! i) [idx..<idx + n])\<rparr>, idx + n)"
  using assms
proof (induction n arbitrary: self ps idx)
  case 0
  then show ?case by (simp add: map_upd_triv)
next
  case (Suc n)
  let ?p = "start_port self + port_order self ! idx"
  let ?self1 = "self\<lparr>switch_ports := (switch_ports self)(sw \<mapsto> ps @ [?p])\<rparr>"
  have g: "py_getitem (port_order self) (int idx) = Inr (port_order self ! idx)"
    using Suc.prems by (simp add: py_getitem_nat)
  have d: "dict_append (setdefault (switch_ports self) sw []) sw ?p
             = Inr ((switch_ports self)(sw \<mapsto> ps @ [?p]))"
    using Suc.prems by (simp add: dict_append_def setdefault_def)
  have ih: "add_links_host ?self1 sw n (Suc idx) =
           Inr (?self1\<lparr>switch_ports := (switch_ports ?self1)(sw \<mapsto>
                    (ps @ [?p]) @ map (\<lambda>i. start_port ?self1 + port_order ?self1 ! i) [Suc idx..<Suc idx + n])\<rparr>, Suc idx + n)"
    using Suc.prems by (intro Suc.IH) simp_all
  have step: "add_links_host self sw (Suc n) idx = add_links_host ?self1 sw n (Suc idx)"
    by (simp add: g d and_then_def)
  show ?case
    unfolding step ih by (simp add: upt_conv_Cons fun_upd_def cong: if_cong del: upt_Suc)
qed

lemma add_links_hosts_result:
  assumes "switch_ports self sw = Some ps" "idx + length hosts * l \<le> length (port_order self)"
  shows "add_links_hosts self sw hosts l idx =
           Inr (self\<lparr>switch_ports := (switch_ports self)(sw \<mapsto>
                    ps @ map (\<lambda>i. start_port self + port_order self ! i) [idx..<idx + length hosts * l])\<rparr>,
                idx + length hosts * l)"
  using assms
proof (induction hosts arbitrary: self ps idx)
  case Nil
  then show ?case by (simp add: map_upd_triv)
next
  case (Cons h hosts)
  let ?f = "\<lambda>i. start_port self + port_order self ! i"
  let ?self1 = "self\<lparr>switch_ports := (switch_ports self)(sw \<mapsto> ps @ map ?f [idx..<idx + l])\<rparr>"
  have a: "add_links_host self sw l idx = Inr (?self1, idx + l)"
    using Cons.prems by (intro add_links_host_result) simp_all
  have ih: "add_links_hosts ?self1 sw hosts l (idx + l) =
           Inr (?self1\<lparr>switch_ports := (switch_ports ?self1)(sw \<mapsto>
                    (ps @ map ?f [idx..<idx + l]) @ map (\<lambda>i. start_port ?self1 + port_order ?self1 ! i) [idx + l..<idx + l + length hosts * l])\<rparr>,
                idx + l + length hosts * l)"
    using Cons.prems by (intro Cons.IH) simp_all
  have u: "[idx..<idx + (l + length hosts * l)] = [idx..<idx + l] @ [idx + l..<idx + l + length hosts * l]"
    by (metis add.assoc le_add1 upt_add_eq_append)
  have step: "add_links_hosts self sw (h # hosts) l idx = add_links_hosts ?self1 sw hosts l (idx + l)"
    by (simp add: a and_then_def)
  show ?case
    unfolding step ih by (simp add: u add.assoc fun_upd_def cong: if_cong)
qed

lemma add_links_result:
  assumes "length hosts * l \<le> length (port_order self)"
  shows "add_links self sw hosts l =
           Inr (self\<lparr>switch_ports := (switch_ports self)(sw \<mapsto>
                    (case switch_ports self sw of None \<Rightarrow> [] | Some ps \<Rightarrow> ps)
                    @ map (\<lambda>i. start_port self + port_order self ! i) [0..<length hosts * l])\<rparr>,
                length hosts * l)"
proof -
  let ?ps = "case switch_ports self sw of None \<Rightarrow> [] | Some ps \<Rightarrow> ps"
  let ?self0 = "self\<lparr>switch_ports := setdefault (switch_ports self) sw []\<rparr>"
  have s: "switch_ports ?self0 sw = Some ?ps"
    by (simp add: setdefault_def split: option.splits)
  have "add_links_hosts ?self0 sw hosts l 0 =
           Inr (?self0\<lparr>switch_ports := (switch_ports ?self0)(sw \<mapsto>
                    ?ps @ map (\<lambda>i. start_port ?self0 + port_order ?self0 ! i) [0..<0 + length hosts * l])\<rparr>,
                0 + length hosts * l)"
    using assms by (intro add_links_hosts_result [OF s]) simp
  then show ?thesis
    by (simp add: add_links_def setdefault_def split: option.splits)
qed

lemma addLinks_loop_result:
  assumes "src \<noteq> dst" "ni src = Some a" "ni dst = Some b"
    "a + n \<le> length (port_order self)" "b + n \<le> length (port_order self)"
    "switch_ports self src = Some ps1" "switch_ports self dst = Some ps2"
    "switch_peer_links self src = Some l1" "switch_peer_links self dst = Some l2"
  shows "addLinks_loop n self src dst d1 d2 ni =
     Inr (self\<lparr>switch_ports := (switch_ports self)
                  (src \<mapsto> ps1 @ map (\<lambda>i. start_port self + port_order self ! (a + i)) [0..<n],
                   dst \<mapsto> ps2 @ map (\<lambda>i. start_port self + port_order self ! (b + i)) [0..<n]),
               switch_peer_links := (switch_peer_links self)
                  (src \<mapsto> l1 @ map (\<lambda>i. \<lparr>port = start_port self + port_order self ! (a + i),
                                          peer_dpid = d2,
                                          peer_port = start_port self + port_order self ! (b + i)\<rparr>) [0..<n],
                   dst \<mapsto> l2 @ map (\<lambda>i. \<lparr>port = start_port self + port_order self ! (b + i),
                                          peer_dpid = d1,
                                          peer_port = start_port self + port_order self ! (a + i)\<rparr>) [0..<n])\<rparr>,
          ni(src \<mapsto> a + n, dst \<mapsto> b + n))"
  using assms
proof (induction n arbitrary: self ni a b ps1 ps2 l1 l2)
  case 0
  then show ?case by (simp add: fun_upd_def fun_eq_iff cong: if_cong)
next
  case (Suc n)
  let ?F = "\<lambda>i. start_port self + port_order self ! i"
  let ?self1 = "self\<lparr>switch_ports := (switch_ports self)(src \<mapsto> ps1 @ [?F a], dst \<mapsto> ps2 @ [?F b]),
         switch_peer_links := (switch_peer_links self)
            (src \<mapsto> l1 @ [\<lparr>port = ?F a, peer_dpid = d2, peer_port = ?F b\<rparr>],
             dst \<mapsto> l2 @ [\<lparr>port = ?F b, peer_dpid = d1, peer_port = ?F a\<rparr>])\<rparr>"
  let ?ni1 = "ni(src \<mapsto> a + 1, dst \<mapsto> b + 1)"
  have g: "py_getitem (port_order self) (int a) = Inr (port_order self ! a)"
          "py_getitem (port_order self) (int b) = Inr (port_order self ! b)"
    using Suc.prems by (simp_all add: py_getitem_nat)
  have step: "addLinks_loop (Suc n) self src dst d1 d2 ni = addLinks_loop n ?self1 src dst d1 d2 ?ni1"
    using Suc.prems
    by (simp add: g and_then_def py_lookup_def dict_append_def dict_incr_def Let_def)
  have ih: "addLinks_loop n ?self1 src dst d1 d2 ?ni1 =
     Inr (?self1\<lparr>switch_ports := (switch_ports ?self1)
                  (src \<mapsto> (ps1 @ [?F a]) @ map (\<lambda>i. start_port ?self1 + port_order ?self1 ! (Suc a + i)) [0..<n],
                   dst \<mapsto> (ps2 @ [?F b]) @ map (\<lambda>i. start_port ?self1 + port_order ?self1 ! (Suc b + i)) [0..<n]),
               switch_peer_links := (switch_peer_links ?self1)
                  (src \<mapsto> (l1 @ [\<lparr>port = ?F a, peer_dpid = d2, peer_port = ?F b\<rparr>])
                          @ map (\<lambda>i. \<lparr>port = start_port ?self1 + port_order ?self1 ! (Suc a + i),
                                          peer_dpid = d2,
                                          peer_port = start_port ?self1 + port_order ?self1 ! (Suc b + i)\<rparr>) [0..<n],
                   dst \<mapsto> (l2 @ [\<lparr>port = ?F b, peer_dpid = d1, peer_port = ?F a\<rparr>])
                          @ map (\<lambda>i. \<lparr>port = start_port ?self1 + port_order ?self1 ! (Suc b + i),
                                          peer_dpid = d1,
                                          peer_port = start_port ?self1 + port_order ?self1 ! (Suc a + i)\<rparr>) [0..<n])\<rparr>,
          ?ni1(src \<mapsto> Suc a + n, dst \<mapsto> Suc b + n))"
    using Suc.prems by (intro Suc.IH) simp_all
  show ?case
    unfolding step ih
    by (simp add: map_upt_Suc fun_upd_def fun_eq_iff cong: if_cong del: upt_Suc)
qed

lemma addLinks_result:
  assumes "src \<noteq> dst" "ni src = Some a" "ni dst = Some b"
    "a + switch_to_switch_links self \<le> length (port_order self)"
    "b + switch_to_switch_links self \<le> length (port_order self)"
    "switch_ports self src = Some ps1" "switch_ports self dst = Some ps2"
    "switch_dpids self src = Some d1" "switch_dpids self dst = Some d2"
  shows "addLinks self src dst ni =
     Inr (self\<lparr>switch_ports := (switch_ports self)
                  (src \<mapsto> ps1 @ map (\<lambda>i. start_port self + port_order self ! (a + i))
                                   [0..<switch_to_switch_links self],
                   dst \<mapsto> ps2 @ map (\<lambda>i. start_port self + port_order self ! (b + i))
                                   [0..<switch_to_switch_links self]),
               switch_peer_links := (switch_peer_links self)
                  (src \<mapsto> (case switch_peer_links self src of None \<Rightarrow> [] | Some l \<Rightarrow> l)
                          @ map (\<lambda>i. \<lparr>port = start_port self + port_order self ! (a + i),
                                          peer_dpid = d2,
                                          peer_port = start_port self + port_order self ! (b + i)\<rparr>)
                                [0..<switch_to_switch_links self],
                   dst \<mapsto> (case switch_peer_links self dst of None \<Rightarrow> [] | Some l \<Rightarrow> l)
                          @ map (\<lambda>i. \<lparr>port = start_port self + port_order self ! (b + i),
                                          peer_dpid = d1,
                                          peer_port = start_port self + port_order self ! (a + i)\<rparr>)
                                [0..<switch_to_switch_links self])\<rparr>,
          ni(src \<mapsto> a + switch_to_switch_links self, dst \<mapsto> b + switch_to_switch_links self))"
proof -
  let ?l1 = "case switch_peer_links self src of None \<Rightarrow> [] | Some l \<Rightarrow> l"
  let ?l2 = "case switch_peer_links self dst of None \<Rightarrow> [] | Some l \<Rightarrow> l"
  let ?self1 = "self\<lparr>switch_peer_links :=
                    setdefault (setdefault (switch_peer_links self) src []) dst []\<rparr>"
  have p1: "switch_peer_links ?self1 src = Some ?l1"
    using assms(1) by (simp add: setdefault_def split: option.splits)
  have p2: "switch_peer_links ?self1 dst = Some ?l2"
    using assms(1) by (simp add: setdefault_def split: option.splits)
  have loop: "addLinks_loop (switch_to_switch_links ?self1) ?self1 src dst d1 d2 ni = Inr
     (?self1\<lparr>switch_ports := (switch_ports ?self1)
                  (src \<mapsto> ps1 @ map (\<lambda>i. start_port ?self1 + port_order ?self1 ! (a + i)) [0..<switch_to_switch_links ?self1],
                   dst \<mapsto> ps2 @ map (\<lambda>i. start_port ?self1 + port_order ?self1 ! (b + i)) [0..<switch_to_switch_links ?self1]),
               switch_peer_links := (switch_peer_links ?self1)
                  (src \<mapsto> ?l1 @ map (\<lambda>i. \<lparr>port = start_port ?self1 + port_order ?self1 ! (a + i),
                                          peer_dpid = d2,
                                          peer_port = start_port ?self1 + port_order ?self1 ! (b + i)\<rparr>) [0..<switch_to_switch_links ?self1],
                   dst \<mapsto> ?l2 @ map (\<lambda>i. \<lparr>port = start_port ?self1 + port_order ?self1 ! (b + i),
                                          peer_dpid = d1,
                                          peer_port = start_port ?self1 + port_order ?self1 ! (a + i)\<rparr>) [0..<switch_to_switch_links ?self1])\<rparr>,
          ni(src \<mapsto> a + switch_to_switch_links ?self1, dst \<mapsto> b + switch_to_switch_links ?self1))"
    using assms by (intro addLinks_loop_result [OF _ _ _ _ _ _ _ p1 p2]) simp_all
  have head: "addLinks self src dst ni
      = addLinks_loop (switch_to_switch_links ?self1) ?self1 src dst d1 d2 ni"
    using assms by (simp add: addLinks_def Let_def py_lookup_def and_then_def)
  show ?thesis
    unfolding head loop
    by (simp add: setdefault_def fun_upd_def fun_eq_iff cong: if_cong split: option.splits)
qed

section \<open>One iteration of the build loop\<close>

lemma and_then_Inr: "and_then m f = Inr y \<longleftrightarrow> (\<exists>x. m = Inr x \<and> f x = Inr y)"
  by (cases m) (simp_all add: and_then_def)

lemma build_switch_prefix:
  assumes "build_switch md pint ovs nt vid nu l hw bs dpid s = Inr bs'"
  shows "\<exists>p. get_sid_prefix s = Inr p"
  using assms by (cases bs) (auto simp: build_switch_def and_then_Inr)

lemma build_switch_Inr:
  assumes ok: "build_switch md pint ovs nt vid nu l hw (st, first, lst, ni) dpid s = Inr bs'"
      and bound: "(nt + nu) * l \<le> length (port_order st)"
      and p: "get_sid_prefix s = Inr p" and nm: "nm = ''s'' @ p"
  shows "\<exists>spec.
     (case first of
           None \<Rightarrow> bs' = (st\<lparr>switch_dpids := (switch_dpids st)(nm \<mapsto> dpid),
                    dpid_names := (dpid_names st)(dpid \<mapsto> nm),
                    switches := switches st @ [spec],
                    switch_ports := (switch_ports st)(nm \<mapsto>
                       (case switch_ports st nm of None \<Rightarrow> [] | Some ps \<Rightarrow> ps)
                       @ map (\<lambda>i. start_port st + port_order st ! i) [0..<(nt + nu) * l])\<rparr>,
                 Some nm, Some nm, ni(nm \<mapsto> (nt + nu) * l))
         | Some f \<Rightarrow> (\<exists>la st3 ni2. lst = Some la
               \<and> addLinks (st\<lparr>switch_dpids := (switch_dpids st)(nm \<mapsto> dpid),
                    dpid_names := (dpid_names st)(dpid \<mapsto> nm),
                    switches := switches st @ [spec],
                    switch_ports := (switch_ports st)(nm \<mapsto>
                       (case switch_ports st nm of None \<Rightarrow> [] | Some ps \<Rightarrow> ps)
                       @ map (\<lambda>i. start_port st + port_order st ! i) [0..<(nt + nu) * l])\<rparr>)
                    la nm (ni(nm \<mapsto> (nt + nu) * l)) = Inr (st3, ni2)
               \<and> bs' = (st3, first, Some nm, ni2)))"
proof -
  let ?hosts = "map (add_tagged_host p vid) [0..<nt] @ map (add_untagged_host p) [0..<nu]"
  from ok p obtain st1 nm' where fs: "add_faucet_switch md pint st p dpid hw ovs = Inr (st1, nm')"
    by (auto simp: build_switch_def and_then_Inr Let_def)
  from add_faucet_switch_result [OF fs] nm obtain spec where nm': "nm' = nm"
    and st1: "st1 = st\<lparr>switch_dpids := (switch_dpids st)(nm \<mapsto> dpid),
            dpid_names := (dpid_names st)(dpid \<mapsto> nm), switches := switches st @ [spec]\<rparr>"
    by auto
  have len: "length ?hosts * l = (nt + nu) * l" by simp
  have al: "add_links st1 nm ?hosts l =
           Inr (st1\<lparr>switch_ports := (switch_ports st1)(nm \<mapsto>
                    (case switch_ports st1 nm of None \<Rightarrow> [] | Some ps \<Rightarrow> ps)
                    @ map (\<lambda>i. start_port st1 + port_order st1 ! i) [0..<length ?hosts * l])\<rparr>,
                length ?hosts * l)"
    using bound by (intro add_links_result) (simp add: st1)
  let ?st2 = "st1\<lparr>switch_ports := (switch_ports st1)(nm \<mapsto>
                    (case switch_ports st1 nm of None \<Rightarrow> [] | Some ps \<Rightarrow> ps)
                    @ map (\<lambda>i. start_port st1 + port_order st1 ! i) [0..<(nt + nu) * l])\<rparr>"
  have rest: "(case first of
         None \<Rightarrow> Inr (?st2, Some nm, Some nm, ni(nm \<mapsto> (nt + nu) * l))
       | Some first_sw \<Rightarrow>
           (case lst of
              None \<Rightarrow> Inl KeyError
            | Some last_sw \<Rightarrow>
                and_then (addLinks ?st2 last_sw nm (ni(nm \<mapsto> (nt + nu) * l))) (\<lambda>(self3, next_index2).
                  Inr (self3, first, Some nm, next_index2)))) = Inr bs'"
    using ok unfolding build_switch_def
    by (simp add: p fs [unfolded nm'] al and_then_def Let_def del: add_links_hosts.simps)
  have "case first of
           None \<Rightarrow> bs' = (?st2, Some nm, Some nm, ni(nm \<mapsto> (nt + nu) * l))
         | Some f \<Rightarrow> (\<exists>la st3 ni2. lst = Some la \<and> addLinks ?st2 la nm (ni(nm \<mapsto> (nt + nu) * l)) = Inr (st3, ni2)
                          \<and> bs' = (st3, first, Some nm, ni2))"
    using rest by (auto simp: and_then_Inr split: option.splits)
  then show ?thesis
    unfolding st1 by (auto split: option.splits)
qed

lemma map_upt_append_shift:
  "map f [0..<a] @ map (\<lambda>i. f (a + i)) [0..<n] = map f [0..<a + n]"
  by (induction n) simp_all

lemma sw_len_simps:
  "sw_len H K (Suc 0) 0 = H"
  "j + 1 < k \<Longrightarrow> sw_len H K (Suc k) j = sw_len H K k j"
  "0 < k \<Longrightarrow> sw_len H K (Suc k) (k - 1) = sw_len H K k (k - 1) + K"
  "0 < k \<Longrightarrow> sw_len H K (Suc k) k = H + K"
  "sw_len H K k j \<le> H + 2 * K"
  "H \<le> sw_len H K k j"
  "0 < k \<Longrightarrow> sw_len H K k (k - 1) \<le> H + K"
  by (auto simp: sw_len_def)

lemma chain_inv_step:
  assumes inv: "chain_inv self0 H nm D k bs"
      and ok: "build_switch md pint ovs nt vid nu l hw bs dpid s = Inr bs'"
      and H: "H = (nt + nu) * l"
      and bound: "H + 2 * switch_to_switch_links self0 < length (port_order self0)"
      and p: "get_sid_prefix s = Inr p" "nm k = ''s'' @ p"
      and inj: "inj_on nm {..k}"
      and dpid: "dpid = D ! k"
  shows "chain_inv self0 H nm D (Suc k) bs'"
proof -
  obtain st first lst ni where bs: "bs = (st, first, lst, ni)" by (cases bs) auto
  let ?K = "switch_to_switch_links self0"
  let ?f = "\<lambda>i. start_port self0 + port_order self0 ! i"
  note I = inv [unfolded chain_inv_def bs, simplified]
  have fr: "start_port st = start_port self0" "port_order st = port_order self0"
    "switch_to_switch_links st = ?K" "hw_dpid st = hw_dpid self0" "hw_ports st = hw_ports self0"
    using I by simp_all
  have fst: "first = (if k = 0 then None else Some (nm 0))"
    and lst: "lst = (if k = 0 then None else Some (nm (k - 1)))" using I by simp_all
  have old: "\<And>j. j < k \<Longrightarrow> switch_ports st (nm j) = Some (map ?f [0..<sw_len H ?K k j])
              \<and> ni (nm j) = Some (sw_len H ?K k j)
              \<and> switch_dpids st (nm j) = Some (D ! j)
              \<and> (2 \<le> k \<longrightarrow> switch_peer_links st (nm j) \<noteq> None)
              \<and> length (case switch_peer_links st (nm j) of None \<Rightarrow> [] | Some ls \<Rightarrow> ls)
                   = sw_len H ?K k j - H"
    using I by simp
  have none: "\<And>n. n \<notin> nm ` {..<k} \<Longrightarrow> switch_ports st n = None \<and> switch_peer_links st n = None"
    using I by simp
  have neq': "\<And>i j. i \<le> k \<Longrightarrow> j \<le> k \<Longrightarrow> i \<noteq> j \<Longrightarrow> nm i \<noteq> nm j"
    using inj by (auto simp: inj_on_def)
  have neq: "\<And>j. j < k \<Longrightarrow> nm j \<noteq> nm k" using neq' by simp
  have fresh: "nm k \<notin> nm ` {..<k}"
  proof
    assume "nm k \<in> nm ` {..<k}"
    then obtain j where "j < k" "nm k = nm j" by auto
    with neq [of j] show False by simp
  qed
  have bnd: "(nt + nu) * l \<le> length (port_order st)" using bound H fr by simp
  from build_switch_Inr [OF ok [unfolded bs] bnd p] obtain spec where
    c: "case first of
           None \<Rightarrow> bs' = (st\<lparr>switch_dpids := (switch_dpids st)(nm k \<mapsto> dpid),
                    dpid_names := (dpid_names st)(dpid \<mapsto> nm k),
                    switches := switches st @ [spec],
                    switch_ports := (switch_ports st)(nm k \<mapsto>
                       (case switch_ports st (nm k) of None \<Rightarrow> [] | Some ps \<Rightarrow> ps)
                       @ map (\<lambda>i. start_port st + port_order st ! i) [0..<(nt + nu) * l])\<rparr>, Some (nm k), Some (nm k), ni(nm k \<mapsto> (nt + nu) * l))
         | Some f \<Rightarrow> (\<exists>la st3 ni2. lst = Some la \<and> addLinks (st\<lparr>switch_dpids := (switch_dpids st)(nm k \<mapsto> dpid),
                    dpid_names := (dpid_names st)(dpid \<mapsto> nm k),
                    switches := switches st @ [spec],
                    switch_ports := (switch_ports st)(nm k \<mapsto>
                       (case switch_ports st (nm k) of None \<Rightarrow> [] | Some ps \<Rightarrow> ps)
                       @ map (\<lambda>i. start_port st + port_order st ! i) [0..<(nt + nu) * l])\<rparr>) la (nm k) (ni(nm k \<mapsto> (nt + nu) * l)) = Inr (st3, ni2)
                          \<and> bs' = (st3, first, Some (nm k), ni2))"
    by blast
  let ?st2 = "st\<lparr>switch_dpids := (switch_dpids st)(nm k \<mapsto> dpid),
                    dpid_names := (dpid_names st)(dpid \<mapsto> nm k),
                    switches := switches st @ [spec],
                    switch_ports := (switch_ports st)(nm k \<mapsto> map ?f [0..<H])\<rparr>"
  let ?ni1 = "ni(nm k \<mapsto> H)"
  have nk: "switch_ports st (nm k) = None" "switch_peer_links st (nm k) = None"
    using none [OF fresh] by simp_all
  have c2: "case first of
           None \<Rightarrow> bs' = (?st2, Some (nm k), Some (nm k), ?ni1)
         | Some f \<Rightarrow> (\<exists>la st3 ni2. lst = Some la \<and> addLinks ?st2 la (nm k) ?ni1 = Inr (st3, ni2)
                          \<and> bs' = (st3, first, Some (nm k), ni2))"
    using c by (cases first) (simp_all add: nk fr H)
  show ?thesis
  proof (cases "k = 0")
    case True
    then have bs': "bs' = (?st2, Some (nm 0), Some (nm 0), ?ni1)"
      using c2 fst by simp
    show ?thesis
      unfolding bs' chain_inv_def using True fr none dpid
      by (auto simp: sw_len_simps)
  next
    case False
    then have kpos: "0 < k" by simp
    define src where "src = nm (k - 1)"
    define a where "a = sw_len H ?K k (k - 1)"
    from c2 fst lst False obtain st3 ni2 where
      al: "addLinks ?st2 src (nm k) ?ni1 = Inr (st3, ni2)"
      and bs': "bs' = (st3, Some (nm 0), Some (nm k), ni2)" by (auto simp: src_def)
    have sd: "src \<noteq> nm k" using neq [of "k - 1"] kpos by (simp add: src_def)
    have o: "switch_ports st src = Some (map ?f [0..<a])" "ni src = Some a"
      "switch_dpids st src = Some (D ! (k - 1))"
      "length (case switch_peer_links st src of None \<Rightarrow> [] | Some ls \<Rightarrow> ls) = a - H"
      using old [of "k - 1"] kpos by (simp_all add: src_def a_def)
    have ab: "a + ?K \<le> length (port_order self0)" "H + ?K \<le> length (port_order self0)"
      "H \<le> a"
      using bound sw_len_simps(7) [OF kpos, of H ?K] sw_len_simps(6) [of H ?K k "k - 1"]
      by (simp_all add: a_def)
    have r: "addLinks ?st2 src (nm k) ?ni1 =
      Inr (?st2\<lparr>switch_ports := (switch_ports ?st2)
                  (src \<mapsto> map ?f [0..<a] @ map (\<lambda>i. start_port ?st2 + port_order ?st2 ! (a + i))
                                   [0..<switch_to_switch_links ?st2],
                   nm k \<mapsto> map ?f [0..<H] @ map (\<lambda>i. start_port ?st2 + port_order ?st2 ! (H + i))
                                   [0..<switch_to_switch_links ?st2]),
               switch_peer_links := (switch_peer_links ?st2)
                  (src \<mapsto> (case switch_peer_links ?st2 src of None \<Rightarrow> [] | Some l \<Rightarrow> l)
                          @ map (\<lambda>i. \<lparr>port = start_port ?st2 + port_order ?st2 ! (a + i),
                                          peer_dpid = dpid,
                                          peer_port = start_port ?st2 + port_order ?st2 ! (H + i)\<rparr>)
                                [0..<switch_to_switch_links ?st2],
                   nm k \<mapsto> (case switch_peer_links ?st2 (nm k) of None \<Rightarrow> [] | Some l \<Rightarrow> l)
                          @ map (\<lambda>i. \<lparr>port = start_port ?st2 + port_order ?st2 ! (H + i),
                                          peer_dpid = D ! (k - 1),
                                          peer_port = start_port ?st2 + port_order ?st2 ! (a + i)\<rparr>)
                                [0..<switch_to_switch_links ?st2])\<rparr>,
          ?ni1(src \<mapsto> a + switch_to_switch_links ?st2, nm k \<mapsto> H + switch_to_switch_links ?st2))"
      using sd o ab fr by (intro addLinks_result) simp_all
    have m1: "map ?f [0..<a] @ map (\<lambda>i. start_port self0 + port_order self0 ! (a + i)) [0..<?K]
                = map ?f [0..<a + ?K]"
      using map_upt_append_shift [of ?f a ?K] by simp
    have m2: "map ?f [0..<H] @ map (\<lambda>i. start_port self0 + port_order self0 ! (H + i)) [0..<?K]
                = map ?f [0..<H + ?K]"
      using map_upt_append_shift [of ?f H ?K] by simp
    have st3: "st3 = ?st2\<lparr>switch_ports := (switch_ports ?st2)
                  (src \<mapsto> map ?f [0..<a + ?K], nm k \<mapsto> map ?f [0..<H + ?K]),
               switch_peer_links := (switch_peer_links st)
                  (src \<mapsto> (case switch_peer_links st src of None \<Rightarrow> [] | Some l \<Rightarrow> l)
                          @ map (\<lambda>i. \<lparr>port = ?f (a + i), peer_dpid = dpid, peer_port = ?f (H + i)\<rparr>) [0..<?K],
                   nm k \<mapsto> map (\<lambda>i. \<lparr>port = ?f (H + i), peer_dpid = D ! (k - 1), peer_port = ?f (a + i)\<rparr>) [0..<?K])\<rparr>"
      and ni2: "ni2 = ?ni1(src \<mapsto> a + ?K, nm k \<mapsto> H + ?K)"
      using al unfolding r by (simp_all add: fr nk m1 m2)
    have sp3: "switch_ports st3 = (switch_ports st)
                  (src \<mapsto> map ?f [0..<a + ?K], nm k \<mapsto> map ?f [0..<H + ?K])"
      and pl3: "switch_peer_links st3 = (switch_peer_links st)
                  (src \<mapsto> (case switch_peer_links st src of None \<Rightarrow> [] | Some l \<Rightarrow> l)
                          @ map (\<lambda>i. \<lparr>port = ?f (a + i), peer_dpid = dpid, peer_port = ?f (H + i)\<rparr>) [0..<?K],
                   nm k \<mapsto> map (\<lambda>i. \<lparr>port = ?f (H + i), peer_dpid = D ! (k - 1), peer_port = ?f (a + i)\<rparr>) [0..<?K])"
      and sd3: "switch_dpids st3 = (switch_dpids st)(nm k \<mapsto> dpid)"
      unfolding st3 by (simp_all add: fun_upd_def fun_eq_iff)
    have frame: "start_port st3 = start_port self0" "port_order st3 = port_order self0"
      "switch_to_switch_links st3 = ?K" "hw_dpid st3 = hw_dpid self0" "hw_ports st3 = hw_ports self0"
      unfolding st3 using fr by simp_all
    have main: "\<And>j. j < Suc k \<Longrightarrow>
                switch_ports st3 (nm j) = Some (map ?f [0..<sw_len H ?K (Suc k) j])
              \<and> ni2 (nm j) = Some (sw_len H ?K (Suc k) j)
              \<and> switch_dpids st3 (nm j) = Some (D ! j)
              \<and> (2 \<le> Suc k \<longrightarrow> switch_peer_links st3 (nm j) \<noteq> None)
              \<and> length (case switch_peer_links st3 (nm j) of None \<Rightarrow> [] | Some ls \<Rightarrow> ls)
                   = sw_len H ?K (Suc k) j - H"
    proof -
      fix j assume j: "j < Suc k"
      consider (new) "j = k" | (prev) "j = k - 1" | (older) "j + 1 < k"
        using j by linarith
      then show "switch_ports st3 (nm j) = Some (map ?f [0..<sw_len H ?K (Suc k) j])
              \<and> ni2 (nm j) = Some (sw_len H ?K (Suc k) j)
              \<and> switch_dpids st3 (nm j) = Some (D ! j)
              \<and> (2 \<le> Suc k \<longrightarrow> switch_peer_links st3 (nm j) \<noteq> None)
              \<and> length (case switch_peer_links st3 (nm j) of None \<Rightarrow> [] | Some ls \<Rightarrow> ls)
                   = sw_len H ?K (Suc k) j - H"
      proof cases
        case new
        show ?thesis unfolding new sp3 pl3 sd3 ni2
          using kpos by (simp add: sw_len_simps dpid)
      next
        case prev
        have e: "nm j = src" by (simp add: prev src_def)
        have l: "sw_len H ?K (Suc k) j = a + ?K"
          using kpos by (auto simp: prev a_def sw_len_def)
        have dj: "D ! j = D ! (k - 1)" by (simp add: prev)
        show ?thesis unfolding e l sp3 pl3 sd3 ni2 dj
          using sd o ab by simp
      next
        case older
        then have jk: "j < k" by simp
        have n1: "nm j \<noteq> nm k" using neq jk by simp
        have n2: "nm j \<noteq> src" using neq' [of j "k - 1"] older by (simp add: src_def)
        have l: "sw_len H ?K (Suc k) j = sw_len H ?K k j"
          using older by (simp add: sw_len_simps)
        have k2: "2 \<le> k" using older by simp
        show ?thesis unfolding l sp3 pl3 sd3 ni2
          using n1 n2 old [OF jk] k2 by simp
      qed
    qed
    have rest: "\<And>n. n \<notin> nm ` {..<Suc k} \<Longrightarrow> switch_ports st3 n = None \<and> switch_peer_links st3 n = None"
    proof -
      fix n assume n: "n \<notin> nm ` {..<Suc k}"
      have "n \<noteq> nm k" using n by auto
      moreover have "n \<noteq> src" using n kpos by (auto simp: src_def)
      moreover have "n \<notin> nm ` {..<k}" using n by auto
      ultimately show "switch_ports st3 n = None \<and> switch_peer_links st3 n = None"
        unfolding sp3 pl3 using none [of n] by simp
    qed
    show ?thesis
      unfolding bs' chain_inv_def using frame main rest by simp
  qed
qed

section \<open>The build loop\<close>

lemma length_extend_port_order: "n < int (length (extend_port_order seed n))"
  by (cases seed) (auto simp: extend_port_order_def Let_def length_upto)

lemma extend_port_order_default_nth:
  "i \<le> n \<Longrightarrow> extend_port_order None (int n) ! i = int i"
  by (simp add: extend_port_order_def)

lemma build_init_fields:
  "start_port (build_init self nt nu l k hw sm sp po) = sp"
  "switch_to_switch_links (build_init self nt nu l k hw sm sp po) = k"
  "port_order (build_init self nt nu l k hw sm sp po)
     = extend_port_order po (int ((nt + nu) * l + 2 * k))"
  "hw_dpid (build_init self nt nu l k hw sm sp po) = hw"
  "switch_peer_links (build_init self nt nu l k hw sm sp po) = Map.empty"
  "switch_ports (build_init self nt nu l k hw sm sp po) = switch_ports self"
  "switch_dpids (build_init self nt nu l k hw sm sp po) = switch_dpids self"
  "dpid_names (build_init self nt nu l k hw sm sp po) = dpid_names self"
  by (simp_all add: build_init_def)

lemma build_init_bound:
  "(nt + nu) * l + 2 * switch_to_switch_links (build_init self nt nu l k hw sm sp po)
     < length (port_order (build_init self nt nu l k hw sm sp po))"
proof -
  have "int ((nt + nu) * l + 2 * k)
          < int (length (extend_port_order po (int ((nt + nu) * l + 2 * k))))"
    by (rule length_extend_port_order)
  then have "(nt + nu) * l + 2 * k < length (extend_port_order po (int ((nt + nu) * l + 2 * k)))"
    by (simp only: of_nat_less_iff)
  then show ?thesis by (simp only: build_init_fields)
qed

lemma chain_inv_init:
  "chain_inv (build_init new_topo nt nu l k hw sm sp po) H nm D 0
     (build_init new_topo nt nu l k hw sm sp po, None, None, Map.empty)"
  by (simp add: chain_inv_def build_init_fields new_topo_def)

lemma build_loop_chain_inv:
  assumes "build_loop md pint ovs nt vid nu l hw gs k bs ds = Inr bs'"
      and "chain_inv self0 H nm D k bs"
      and "ds = drop k D" "k \<le> length D"
      and H: "H = (nt + nu) * l"
      and bound: "H + 2 * switch_to_switch_links self0 < length (port_order self0)"
      and pre: "\<forall>i<length D. \<exists>p. get_sid_prefix (gs i) = Inr p \<and> nm i = ''s'' @ p"
      and inj: "inj_on nm {..<length D}"
  shows "chain_inv self0 H nm D (length D) bs'"
  using assms(1-4)
proof (induction ds arbitrary: k bs)
  case Nil
  then have "k = length D" by simp
  with Nil show ?case by simp
next
  case (Cons d ds)
  have k: "k < length D" using Cons.prems(3) by (metis drop_eq_Nil linorder_not_less list.distinct(1))
  have d: "d = D ! k" and ds: "ds = drop (Suc k) D"
    using Cons.prems(3) k by (simp_all add: Cons_nth_drop_Suc [symmetric])
  from Cons.prems(1) obtain bs1 where
    s: "build_switch md pint ovs nt vid nu l hw bs d (gs k) = Inr bs1"
    and r: "build_loop md pint ovs nt vid nu l hw gs (Suc k) bs1 ds = Inr bs'"
    by (auto simp: and_then_Inr)
  from pre k obtain p where p: "get_sid_prefix (gs k) = Inr p" "nm k = ''s'' @ p" by blast
  have i: "inj_on nm {..k}"
    using inj k by (auto simp: inj_on_def)
  have "chain_inv self0 H nm D (Suc k) bs1"
    by (rule chain_inv_step [OF Cons.prems(2) s H bound p i d])
  then show ?case
    using Cons.IH [OF r _ ds] k by simp
qed

lemma build_chain_inv:
  assumes ok: "build md pint new_topo ovs D nt vid nu l K hw sm ring sp po gs = Inr st"
      and pre: "\<forall>i<length D. \<exists>p. get_sid_prefix (gs i) = Inr p \<and> nm i = ''s'' @ p"
      and inj: "inj_on nm {..<length D}"
  shows "\<exists>st1 ni. build_loop md pint ovs nt vid nu l hw gs 0
              (build_init new_topo nt nu l K hw sm sp po, None, None, Map.empty) D
            = Inr (st1, (if D = [] then None else Some (nm 0)),
                        (if D = [] then None else Some (nm (length D - 1))), ni)
         \<and> chain_inv (build_init new_topo nt nu l K hw sm sp po) ((nt + nu) * l) nm D (length D)
              (st1, (if D = [] then None else Some (nm 0)),
                        (if D = [] then None else Some (nm (length D - 1))), ni)
         \<and> (if ring then D \<noteq> [] \<and> (\<exists>ni'. addLinks st1 (nm 0) (nm (length D - 1)) ni = Inr (st, ni'))
             else st = st1)"
proof -
  let ?self0 = "build_init new_topo nt nu l K hw sm sp po"
  from ok obtain st1 first lst ni where
    loop: "build_loop md pint ovs nt vid nu l hw gs 0 (?self0, None, None, Map.empty) D
             = Inr (st1, first, lst, ni)"
    and fin: "(if ring then
                (case first of
                   None \<Rightarrow> Inl KeyError
                 | Some first_sw \<Rightarrow>
                     (case lst of
                        None \<Rightarrow> Inl KeyError
                      | Some last_sw \<Rightarrow>
                          and_then (addLinks st1 first_sw last_sw ni)
                            (\<lambda>(self2, next_index1). Inr self2)))
              else Inr st1) = Inr st"
    by (auto simp: build_def Let_def and_then_Inr)
  have inv: "chain_inv ?self0 ((nt + nu) * l) nm D (length D) (st1, first, lst, ni)"
    by (rule build_loop_chain_inv [OF loop chain_inv_init _ _ refl build_init_bound pre inj]) simp_all
  have f: "first = (if D = [] then None else Some (nm 0))"
    and la: "lst = (if D = [] then None else Some (nm (length D - 1)))"
    using inv by (simp_all add: chain_inv_def)
  have "if ring then D \<noteq> [] \<and> (\<exists>ni'. addLinks st1 (nm 0) (nm (length D - 1)) ni = Inr (st, ni'))
             else st = st1"
    using fin unfolding f la by (auto simp: and_then_Inr split: if_splits)
  then show ?thesis using loop inv unfolding f la by blast
qed

section \<open>Port lists of a chain\<close>

lemma example_prefixes:
  "get_sid_prefix (example_serialno 0) = Inr ''00''"
  "get_sid_prefix (example_serialno 1) = Inr ''01''"
  "get_sid_prefix (example_serialno 2) = Inr ''02''"
  using get_sid_prefix_in_range [of 0] get_sid_prefix_in_range [of 1] get_sid_prefix_in_range [of 2]
  by (simp_all add: example_serialno_def id_chars_eq)

lemma chain_inv_ports:
  assumes "chain_inv self0 H nm D k (st, fs, ls, ni)" "j < k"
  shows "switch_ports st (nm j)
           = Some (map (\<lambda>i. start_port self0 + port_order self0 ! i)
                     [0..<sw_len H (switch_to_switch_links self0) k j])
       \<and> switch_dpids st (nm j) = Some (D ! j)"
  using assms by (simp add: chain_inv_def)

text \<open>
  C6: after a chain build (no ring, no tagged hosts) of at least two switches whose
  prefixes are pairwise distinct, the switch at position \<open>i\<close> (named \<open>s<prefix i>\<close>,
  with datapath id \<open>dpids[i]\<close>) has a recorded port list of length \<open>U * L + K\<close> when it
  is the first or the last switch, and of length \<open>U * L + 2 * K\<close> otherwise.
\<close>

theorem chain_port_counts:
  assumes ok: "build md pint new_topo ovs dpids 0 vid U L K hw sm False sp po gs = Inr st"
      and n: "2 \<le> length dpids"
      and pre: "\<forall>i<length dpids. get_sid_prefix (gs i) = Inr (pre i)"
      and inj: "inj_on pre {..<length dpids}"
  shows "\<forall>i<length dpids. \<exists>ps.
           switch_dpids st (''s'' @ pre i) = Some (dpids ! i)
         \<and> switch_ports st (''s'' @ pre i) = Some ps
         \<and> length ps = (if i = 0 \<or> i = length dpids - 1 then U * L + K else U * L + 2 * K)"
proof (intro allI impI)
  fix i assume i: "i < length dpids"
  define nm where "nm = (\<lambda>i. ''s'' @ pre i)"
  let ?self0 = "build_init new_topo 0 U L K hw sm sp po"
  have p: "\<forall>i<length dpids. \<exists>p. get_sid_prefix (gs i) = Inr p \<and> nm i = ''s'' @ p"
    using pre by (simp add: nm_def)
  have j: "inj_on nm {..<length dpids}"
    using inj by (auto simp: inj_on_def nm_def)
  from build_chain_inv [OF ok p j] obtain fs ls ni where
    inv: "chain_inv ?self0 ((0 + U) * L) nm dpids (length dpids) (st, fs, ls, ni)"
    by auto
  have K: "switch_to_switch_links ?self0 = K" by (simp add: build_init_fields)
  from inv i have
    "switch_ports st (nm i) = Some (map (\<lambda>i. start_port ?self0 + port_order ?self0 ! i)
                             [0..<sw_len (U * L) K (length dpids) i])"
    and "switch_dpids st (nm i) = Some (dpids ! i)"
    unfolding chain_inv_def K by simp_all
  moreover have "sw_len (U * L) K (length dpids) i
                   = (if i = 0 \<or> i = length dpids - 1 then U * L + K else U * L + 2 * K)"
    using n i by (auto simp: sw_len_def)
  ultimately show "\<exists>ps. switch_dpids st (''s'' @ pre i) = Some (dpids ! i)
         \<and> switch_ports st (''s'' @ pre i) = Some ps
         \<and> length ps = (if i = 0 \<or> i = length dpids - 1 then U * L + K else U * L + 2 * K)"
    by (simp add: nm_def)
qed

lemma example_build_ok: "\<exists>st. example_build 1 2 2 False = Inr st"
proof -
  have "case example_build 1 2 2 False of Inl e \<Rightarrow> False | Inr st \<Rightarrow> True"
    unfolding example_build_def example_serialno_def by code_simp
  then show ?thesis by (cases "example_build 1 2 2 False") simp_all
qed

theorem chain_port_counts_witness:
  "\<exists>st ps0 ps1 ps2. example_build 1 2 2 False = Inr st
     \<and> switch_ports st ''s00'' = Some ps0 \<and> length ps0 = 4
     \<and> switch_ports st ''s01'' = Some ps1 \<and> length ps1 = 6
     \<and> switch_ports st ''s02'' = Some ps2 \<and> length ps2 = 4"
proof -
  obtain st where st: "example_build 1 2 2 False = Inr st"
    using example_build_ok by blast
  define pre where "pre = (\<lambda>i::nat. if i = 0 then ''00'' else if i = 1 then ''01'' else ''02'')"
  have p: "\<forall>i<length [''1'', ''2'', ''3'']. get_sid_prefix (example_serialno i) = Inr (pre i)"
    using example_prefixes by (auto simp: pre_def less_Suc_eq numeral_3_eq_3 numeral_2_eq_2)
  have j: "inj_on pre {..<length [''1'', ''2'', ''3'']}"
    by (auto simp: inj_on_def pre_def split: if_splits)
  have n: "2 \<le> length [''1'', ''2'', ''3'']" by simp
  note t = chain_port_counts [OF st [unfolded example_build_def] n p j]
  from t have "\<exists>ps. switch_ports st ''s00'' = Some ps \<and> length ps = 4"
    by (auto simp: pre_def dest!: spec [of _ 0])
  moreover from t have "\<exists>ps. switch_ports st ''s01'' = Some ps \<and> length ps = 6"
    by (auto simp: pre_def dest!: spec [of _ 1])
  moreover from t have "\<exists>ps. switch_ports st ''s02'' = Some ps \<and> length ps = 4"
    by (auto simp: pre_def dest!: spec [of _ 2])
  ultimately show ?thesis using st by blast
qed

text \<open>
  C7: the chain of three switches with two untagged hosts each, one link per host, one
  link between neighbours, no ring, start port 5 and the default port order records
  the ports \<open>[5, 6, 7]\<close>, \<open>[5, 6, 7, 8]\<close> and \<open>[5, 6, 7]\<close>, whatever the datapath ids
  and the (pairwise distinct) prefixes are.
\<close>

theorem three_switch_chain_ports:
  assumes ok: "build md pint new_topo ovs [d0, d1, d2] 0 vid 2 1 1 hw sm False 5 None gs = Inr st"
      and p: "get_sid_prefix (gs 0) = Inr p0" "get_sid_prefix (gs 1) = Inr p1"
             "get_sid_prefix (gs 2) = Inr p2"
      and d: "distinct [p0, p1, p2]"
  shows "switch_ports st (''s'' @ p0) = Some [5, 6, 7]
       \<and> switch_ports st (''s'' @ p1) = Some [5, 6, 7, 8]
       \<and> switch_ports st (''s'' @ p2) = Some [5, 6, 7]"
proof -
  define nm where "nm = (\<lambda>i::nat. if i = 0 then ''s'' @ p0 else if i = 1 then ''s'' @ p1 else ''s'' @ p2)"
  let ?self0 = "build_init new_topo 0 2 1 1 hw sm 5 None"
  have pp: "\<forall>i<length [d0, d1, d2]. \<exists>p. get_sid_prefix (gs i) = Inr p \<and> nm i = ''s'' @ p"
    using p by (auto simp: nm_def less_Suc_eq numeral_3_eq_3 numeral_2_eq_2)
  have j: "inj_on nm {..<length [d0, d1, d2]}"
    using d by (auto simp: inj_on_def nm_def split: if_splits)
  from build_chain_inv [OF ok pp j] obtain fs ls ni where
    inv: "chain_inv ?self0 ((0 + 2) * 1) nm [d0, d1, d2] (length [d0, d1, d2]) (st, fs, ls, ni)"
    by auto
  have "switch_ports st (nm 0) = Some [5, 6, 7]"
    using chain_inv_ports [OF inv, of 0] by (simp add: build_init_fields extend_port_order_def sw_len_def)
  moreover have "switch_ports st (nm 1) = Some [5, 6, 7, 8]"
    using chain_inv_ports [OF inv, of 1] by (simp add: build_init_fields extend_port_order_def sw_len_def)
  moreover have "switch_ports st (nm 2) = Some [5, 6, 7]"
    using chain_inv_ports [OF inv, of 2] by (simp add: build_init_fields extend_port_order_def sw_len_def)
  ultimately show ?thesis by (simp add: nm_def)
qed

lemma example_build_chain_ok: "\<exists>st. example_build 2 1 1 False = Inr st"
proof -
  have "case example_build 2 1 1 False of Inl e \<Rightarrow> False | Inr st \<Rightarrow> True"
    unfolding example_build_def example_serialno_def by code_simp
  then show ?thesis by (cases "example_build 2 1 1 False") simp_all
qed

theorem three_switch_chain_ports_witness:
  "\<exists>st. example_build 2 1 1 False = Inr st
     \<and> switch_ports st ''s00'' = Some [5, 6, 7]
     \<and> switch_ports st ''s01'' = Some [5, 6, 7, 8]
     \<and> switch_ports st ''s02'' = Some [5, 6, 7]"
proof -
  obtain st where st: "example_build 2 1 1 False = Inr st"
    using example_build_chain_ok by blast
  have d: "distinct [''00'', ''01'', ''02'']" by simp
  from three_switch_chain_ports [OF st [unfolded example_build_def] example_prefixes d] st
  show ?thesis by auto
qed

section \<open>Mirroring of the peer links\<close>

lemma inj_on_atMost_neq:
  "inj_on nm {..k} \<Longrightarrow> i \<le> k \<Longrightarrow> j \<le> k \<Longrightarrow> i \<noteq> j \<Longrightarrow> nm i \<noteq> nm j"
  by (metis atMost_iff inj_onD)

lemma dict_append_Inr:
  "dict_append d k v = Inr d' \<longleftrightarrow> (\<exists>xs. d k = Some xs \<and> d' = d(k \<mapsto> xs @ [v]))"
  by (auto simp: dict_append_def split: option.splits)

lemma mirrored_one_link:
  assumes m: "peer_links_mirrored self"
      and sd: "switch_dpids self src = Some d1" "switch_dpids self dst = Some d2"
      and a1: "dict_append (switch_peer_links self) src \<lparr>port = p1, peer_dpid = d2, peer_port = p2\<rparr> = Inr pl1"
      and a2: "dict_append pl1 dst \<lparr>port = p2, peer_dpid = d1, peer_port = p1\<rparr> = Inr pl2"
  shows "peer_links_mirrored (self\<lparr>switch_ports := sp, switch_peer_links := pl2\<rparr>)"
proof -
  let ?x = "\<lparr>port = p1, peer_dpid = d2, peer_port = p2\<rparr>"
  let ?y = "\<lparr>port = p2, peer_dpid = d1, peer_port = p1\<rparr>"
  let ?pl = "switch_peer_links self"
  from a1 obtain l1 where l1: "?pl src = Some l1" "pl1 = ?pl(src \<mapsto> l1 @ [?x])"
    by (auto simp: dict_append_Inr)
  from a2 obtain l2 where l2: "pl1 dst = Some l2" "pl2 = pl1(dst \<mapsto> l2 @ [?y])"
    by (auto simp: dict_append_Inr)
  have mono: "\<And>B ls. ?pl B = Some ls \<Longrightarrow> \<exists>ls'. pl2 B = Some ls' \<and> set ls \<subseteq> set ls'"
    using l1 l2 by (auto simp: fun_upd_def split: if_splits)
  have new: "\<And>A ls l. pl2 A = Some ls \<Longrightarrow> l \<in> set ls \<Longrightarrow>
               (\<exists>ls0. ?pl A = Some ls0 \<and> l \<in> set ls0) \<or> (A = src \<and> l = ?x) \<or> (A = dst \<and> l = ?y)"
    using l1 l2 by (auto simp: fun_upd_def split: if_splits)
  have xin: "\<exists>ls. pl2 src = Some ls \<and> ?x \<in> set ls"
    using l1 l2 by (auto simp: fun_upd_def split: if_splits)
  have yin: "\<exists>ls. pl2 dst = Some ls \<and> ?y \<in> set ls"
    using l1 l2 by (auto simp: fun_upd_def split: if_splits)
  show ?thesis
    unfolding peer_links_mirrored_def
  proof (intro allI impI)
    fix A d ls l
    assume A: "switch_dpids (self\<lparr>switch_ports := sp, switch_peer_links := pl2\<rparr>) A = Some d"
       and ls: "switch_peer_links (self\<lparr>switch_ports := sp, switch_peer_links := pl2\<rparr>) A = Some ls"
       and l: "l \<in> set ls"
    from A have A': "switch_dpids self A = Some d" by simp
    from ls have ls': "pl2 A = Some ls" by simp
    from new [OF ls' l] consider
      (old) ls0 where "?pl A = Some ls0" "l \<in> set ls0" | (x) "A = src" "l = ?x" | (y) "A = dst" "l = ?y"
      by blast
    then have "\<exists>B ls'. switch_dpids self B = Some (peer_dpid l) \<and> pl2 B = Some ls'
               \<and> \<lparr>port = peer_port l, peer_dpid = d, peer_port = port l\<rparr> \<in> set ls'"
    proof cases
      case old
      from m [unfolded peer_links_mirrored_def, rule_format, OF A' old] obtain B ls' where
        B: "switch_dpids self B = Some (peer_dpid l)" "?pl B = Some ls'"
           "\<lparr>port = peer_port l, peer_dpid = d, peer_port = port l\<rparr> \<in> set ls'" by blast
      from mono [OF B(2)] B show ?thesis by blast
    next
      case x
      have "d = d1" using A' sd x by simp
      then show ?thesis using yin sd x by auto
    next
      case y
      have "d = d2" using A' sd y by simp
      then show ?thesis using xin sd y by auto
    qed
    then show "\<exists>B ls'. switch_dpids (self\<lparr>switch_ports := sp, switch_peer_links := pl2\<rparr>) B = Some (peer_dpid l)
               \<and> switch_peer_links (self\<lparr>switch_ports := sp, switch_peer_links := pl2\<rparr>) B = Some ls'
               \<and> \<lparr>port = peer_port l, peer_dpid = d, peer_port = port l\<rparr> \<in> set ls'"
      by simp
  qed
qed

lemma addLinks_loop_Suc_Inr:
  assumes "addLinks_loop (Suc n) self src dst d1 d2 ni = Inr r"
  shows "\<exists>off1 off2 sp2 pl1 pl2 ni2.
      dict_append (switch_peer_links self) src
           \<lparr>port = start_port self + off1, peer_dpid = d2, peer_port = start_port self + off2\<rparr> = Inr pl1
    \<and> dict_append pl1 dst
           \<lparr>port = start_port self + off2, peer_dpid = d1, peer_port = start_port self + off1\<rparr> = Inr pl2
    \<and> addLinks_loop n (self\<lparr>switch_ports := sp2, switch_peer_links := pl2\<rparr>) src dst d1 d2 ni2 = Inr r"
  using assms
  apply (simp only: addLinks_loop.simps and_then_Inr Let_def)
  apply (elim exE conjE)
  apply (intro exI conjI)
    apply assumption+
  done

text \<open>\<open>addLinks\<close> leaves the name dictionaries and the hardware context as they are.\<close>

lemma addLinks_loop_frame:
  assumes "addLinks_loop n self src dst d1 d2 ni = Inr (self', ni')"
  shows "switch_dpids self' = switch_dpids self \<and> dpid_names self' = dpid_names self
       \<and> hw_dpid self' = hw_dpid self"
  using assms
proof (induction n arbitrary: self ni)
  case 0
  then show ?case by simp
next
  case (Suc n)
  from addLinks_loop_Suc_Inr [OF Suc.prems] obtain sp2 pl2 ni2 where
    r: "addLinks_loop n (self\<lparr>switch_ports := sp2, switch_peer_links := pl2\<rparr>) src dst d1 d2 ni2
              = Inr (self', ni')"
    by blast
  from Suc.IH [OF r] show ?case by simp
qed

lemma addLinks_frame:
  assumes "addLinks self src dst ni = Inr (self', ni')"
  shows "switch_dpids self' = switch_dpids self \<and> dpid_names self' = dpid_names self
       \<and> hw_dpid self' = hw_dpid self"
proof -
  let ?self1 = "self\<lparr>switch_peer_links :=
                    setdefault (setdefault (switch_peer_links self) src []) dst []\<rparr>"
  from assms obtain d1 d2 where
    "addLinks_loop (switch_to_switch_links ?self1) ?self1 src dst d1 d2 ni = Inr (self', ni')"
    by (auto simp: addLinks_def Let_def and_then_Inr)
  from addLinks_loop_frame [OF this] show ?thesis by simp
qed

lemma mirrored_addLinks_loop:
  assumes "addLinks_loop n self src dst d1 d2 ni = Inr (self', ni')"
      and "peer_links_mirrored self"
      and "switch_dpids self src = Some d1" "switch_dpids self dst = Some d2"
  shows "peer_links_mirrored self'"
  using assms
proof (induction n arbitrary: self ni)
  case 0
  then show ?case by simp
next
  case (Suc n)
  from addLinks_loop_Suc_Inr [OF Suc.prems(1)] obtain off1 off2 sp2 pl1 pl2 ni2 where
    a1: "dict_append (switch_peer_links self) src
           \<lparr>port = start_port self + off1, peer_dpid = d2, peer_port = start_port self + off2\<rparr> = Inr pl1"
    and a2: "dict_append pl1 dst
           \<lparr>port = start_port self + off2, peer_dpid = d1, peer_port = start_port self + off1\<rparr> = Inr pl2"
    and r: "addLinks_loop n (self\<lparr>switch_ports := sp2, switch_peer_links := pl2\<rparr>) src dst d1 d2 ni2
              = Inr (self', ni')"
    by blast
  let ?self1 = "self\<lparr>switch_ports := sp2, switch_peer_links := pl2\<rparr>"
  have m1: "peer_links_mirrored ?self1"
    by (rule mirrored_one_link [OF Suc.prems(2-4) a1 a2])
  show ?case
    using Suc.prems(3,4) by (intro Suc.IH [OF r m1]) simp_all
qed

lemma setdefault_keep: "d B = Some xs \<Longrightarrow> setdefault d k v B = Some xs"
  by (cases "d k") (auto simp: setdefault_def)

lemma setdefault_nonempty:
  "setdefault d k [] A = Some ls \<Longrightarrow> l \<in> set ls \<Longrightarrow> d A = Some ls"
  by (cases "d k"; cases "A = k") (auto simp: setdefault_def)

lemma mirrored_setdefault:
  assumes "peer_links_mirrored self"
  shows "peer_links_mirrored (self\<lparr>switch_peer_links :=
            setdefault (setdefault (switch_peer_links self) src []) dst []\<rparr>)"
  unfolding peer_links_mirrored_def
proof (intro allI impI)
  let ?pl = "setdefault (setdefault (switch_peer_links self) src []) dst []"
  fix A d ls l
  assume A: "switch_dpids (self\<lparr>switch_peer_links := ?pl\<rparr>) A = Some d"
     and ls: "switch_peer_links (self\<lparr>switch_peer_links := ?pl\<rparr>) A = Some ls"
     and l: "l \<in> set ls"
  have A': "switch_dpids self A = Some d" using A by simp
  have "?pl A = Some ls" using ls by simp
  then have "setdefault (switch_peer_links self) src [] A = Some ls"
    using l by (rule setdefault_nonempty)
  then have old: "switch_peer_links self A = Some ls"
    using l by (rule setdefault_nonempty)
  from assms [unfolded peer_links_mirrored_def, rule_format, OF A' old l] obtain B ls' where
    B: "switch_dpids self B = Some (peer_dpid l)" "switch_peer_links self B = Some ls'"
    "\<lparr>port = peer_port l, peer_dpid = d, peer_port = port l\<rparr> \<in> set ls'"
    by blast
  have k: "?pl B = Some ls'"
    using B(2) by (intro setdefault_keep)
  have "switch_dpids (self\<lparr>switch_peer_links := ?pl\<rparr>) B = Some (peer_dpid l)
               \<and> switch_peer_links (self\<lparr>switch_peer_links := ?pl\<rparr>) B = Some ls'
               \<and> \<lparr>port = peer_port l, peer_dpid = d, peer_port = port l\<rparr> \<in> set ls'"
    using B k by simp
  then show "\<exists>B ls'. switch_dpids (self\<lparr>switch_peer_links := ?pl\<rparr>) B = Some (peer_dpid l)
               \<and> switch_peer_links (self\<lparr>switch_peer_links := ?pl\<rparr>) B = Some ls'
               \<and> \<lparr>port = peer_port l, peer_dpid = d, peer_port = port l\<rparr> \<in> set ls'"
    by blast
qed

lemma mirrored_addLinks:
  assumes ok: "addLinks self src dst ni = Inr (self', ni')"
      and m: "peer_links_mirrored self"
      and sd: "switch_dpids self src = Some d1" "switch_dpids self dst = Some d2"
  shows "peer_links_mirrored self'"
proof -
  let ?self1 = "self\<lparr>switch_peer_links :=
                    setdefault (setdefault (switch_peer_links self) src []) dst []\<rparr>"
  from ok sd have loop:
    "addLinks_loop (switch_to_switch_links ?self1) ?self1 src dst d1 d2 ni = Inr (self', ni')"
    by (simp add: addLinks_def Let_def py_lookup_def and_then_def)
  show ?thesis
    using sd by (intro mirrored_addLinks_loop [OF loop mirrored_setdefault [OF m]]) simp_all
qed

lemma mirrored_new_switch:
  assumes mir: "peer_links_mirrored st"
      and none: "switch_peer_links st n = None"
  shows "peer_links_mirrored
           (st\<lparr>switch_dpids := (switch_dpids st)(n \<mapsto> d0), dpid_names := dn,
                switches := sws, switch_ports := sp\<rparr>)"
proof -
  let ?st2 = "st\<lparr>switch_dpids := (switch_dpids st)(n \<mapsto> d0), dpid_names := dn,
                switches := sws, switch_ports := sp\<rparr>"
  show ?thesis
    unfolding peer_links_mirrored_def
  proof (intro allI impI)
    fix A d ls l
    assume A: "switch_dpids ?st2 A = Some d" and ls: "switch_peer_links ?st2 A = Some ls"
       and l: "l \<in> set ls"
    have ls': "switch_peer_links st A = Some ls" using ls by simp
    then have "A \<noteq> n" using none by auto
    then have A': "switch_dpids st A = Some d" using A by simp
    from mir [unfolded peer_links_mirrored_def, rule_format, OF A' ls' l] obtain B ls' where
      B: "switch_dpids st B = Some (peer_dpid l)" "switch_peer_links st B = Some ls'"
        "\<lparr>port = peer_port l, peer_dpid = d, peer_port = port l\<rparr> \<in> set ls'" by blast
    have "B \<noteq> n" using B(2) none by auto
    then show "\<exists>B ls'. switch_dpids ?st2 B = Some (peer_dpid l) \<and> switch_peer_links ?st2 B = Some ls'
               \<and> \<lparr>port = peer_port l, peer_dpid = d, peer_port = port l\<rparr> \<in> set ls'"
      using B by auto
  qed
qed

lemma build_switch_names:
  assumes ok: "build_switch md pint ovs nt vid nu l hw (st, first, lst, ni) dpid s
                 = Inr (st', first', lst', ni')"
      and bound: "(nt + nu) * l \<le> length (port_order st)"
      and p: "get_sid_prefix s = Inr p" and nm: "n = ''s'' @ p"
  shows "switch_dpids st' = (switch_dpids st)(n \<mapsto> dpid)
       \<and> dpid_names st' = (dpid_names st)(dpid \<mapsto> n)
       \<and> hw_dpid st' = hw_dpid st"
proof -
  from build_switch_Inr [OF ok bound p nm] obtain spec where
    c: "case first of
           None \<Rightarrow> (st', first', lst', ni') = (st\<lparr>switch_dpids := (switch_dpids st)(n \<mapsto> dpid),
                    dpid_names := (dpid_names st)(dpid \<mapsto> n),
                    switches := switches st @ [spec],
                    switch_ports := (switch_ports st)(n \<mapsto>
                       (case switch_ports st n of None \<Rightarrow> [] | Some ps \<Rightarrow> ps)
                       @ map (\<lambda>i. start_port st + port_order st ! i) [0..<(nt + nu) * l])\<rparr>,
                 Some n, Some n, ni(n \<mapsto> (nt + nu) * l))
         | Some f \<Rightarrow> (\<exists>la st3 ni2. lst = Some la
               \<and> addLinks (st\<lparr>switch_dpids := (switch_dpids st)(n \<mapsto> dpid),
                    dpid_names := (dpid_names st)(dpid \<mapsto> n),
                    switches := switches st @ [spec],
                    switch_ports := (switch_ports st)(n \<mapsto>
                       (case switch_ports st n of None \<Rightarrow> [] | Some ps \<Rightarrow> ps)
                       @ map (\<lambda>i. start_port st + port_order st ! i) [0..<(nt + nu) * l])\<rparr>)
                    la n (ni(n \<mapsto> (nt + nu) * l)) = Inr (st3, ni2)
               \<and> (st', first', lst', ni') = (st3, first, Some n, ni2))"
    by blast
  show ?thesis
  proof (cases first)
    case None
    with c show ?thesis by simp
  next
    case (Some f)
    with c obtain la ni2 where
      "addLinks (st\<lparr>switch_dpids := (switch_dpids st)(n \<mapsto> dpid),
                    dpid_names := (dpid_names st)(dpid \<mapsto> n),
                    switches := switches st @ [spec],
                    switch_ports := (switch_ports st)(n \<mapsto>
                       (case switch_ports st n of None \<Rightarrow> [] | Some ps \<Rightarrow> ps)
                       @ map (\<lambda>i. start_port st + port_order st ! i) [0..<(nt + nu) * l])\<rparr>)
                    la n (ni(n \<mapsto> (nt + nu) * l)) = Inr (st', ni2)"
      by auto
    from addLinks_frame [OF this] show ?thesis by simp
  qed
qed

lemma build_switch_mirrored:
  assumes ok: "build_switch md pint ovs nt vid nu l hw (st, first, lst, ni) dpid s
                 = Inr (st', first', lst', ni')"
      and bound: "(nt + nu) * l \<le> length (port_order st)"
      and p: "get_sid_prefix s = Inr p" and nm: "n = ''s'' @ p"
      and mir: "peer_links_mirrored st"
      and none: "switch_peer_links st n = None"
      and la: "\<And>f. first = Some f \<Longrightarrow> \<exists>la d. lst = Some la \<and> la \<noteq> n \<and> switch_dpids st la = Some d"
  shows "peer_links_mirrored st'"
proof -
  from build_switch_Inr [OF ok bound p nm] obtain spec where
    c: "case first of
           None \<Rightarrow> (st', first', lst', ni') = (st\<lparr>switch_dpids := (switch_dpids st)(n \<mapsto> dpid),
                    dpid_names := (dpid_names st)(dpid \<mapsto> n),
                    switches := switches st @ [spec],
                    switch_ports := (switch_ports st)(n \<mapsto>
                       (case switch_ports st n of None \<Rightarrow> [] | Some ps \<Rightarrow> ps)
                       @ map (\<lambda>i. start_port st + port_order st ! i) [0..<(nt + nu) * l])\<rparr>,
                 Some n, Some n, ni(n \<mapsto> (nt + nu) * l))
         | Some f \<Rightarrow> (\<exists>la st3 ni2. lst = Some la
               \<and> addLinks (st\<lparr>switch_dpids := (switch_dpids st)(n \<mapsto> dpid),
                    dpid_names := (dpid_names st)(dpid \<mapsto> n),
                    switches := switches st @ [spec],
                    switch_ports := (switch_ports st)(n \<mapsto>
                       (case switch_ports st n of None \<Rightarrow> [] | Some ps \<Rightarrow> ps)
                       @ map (\<lambda>i. start_port st + port_order st ! i) [0..<(nt + nu) * l])\<rparr>)
                    la n (ni(n \<mapsto> (nt + nu) * l)) = Inr (st3, ni2)
               \<and> (st', first', lst', ni') = (st3, first, Some n, ni2))"
    by blast
  define st2 where "st2 = st\<lparr>switch_dpids := (switch_dpids st)(n \<mapsto> dpid),
                    dpid_names := (dpid_names st)(dpid \<mapsto> n),
                    switches := switches st @ [spec],
                    switch_ports := (switch_ports st)(n \<mapsto>
                       (case switch_ports st n of None \<Rightarrow> [] | Some ps \<Rightarrow> ps)
                       @ map (\<lambda>i. start_port st + port_order st ! i) [0..<(nt + nu) * l])\<rparr>"
  have m2: "peer_links_mirrored st2"
    unfolding st2_def by (rule mirrored_new_switch [OF mir none])
  show ?thesis
  proof (cases first)
    case None
    with c have "st' = st2" by (simp add: st2_def)
    with m2 show ?thesis by simp
  next
    case (Some f)
    with c obtain la' ni2 where l1: "lst = Some la'"
      and al: "addLinks st2 la' n (ni(n \<mapsto> (nt + nu) * l)) = Inr (st', ni2)"
      by (auto simp: st2_def)
    from la [OF Some] l1 obtain d where d: "la' \<noteq> n" "switch_dpids st la' = Some d" by auto
    have s1: "switch_dpids st2 la' = Some d" using d by (simp add: st2_def)
    have s2: "switch_dpids st2 n = Some dpid" by (simp add: st2_def)
    show ?thesis by (rule mirrored_addLinks [OF al m2 s1 s2])
  qed
qed

lemma chain_inv_facts:
  assumes c: "chain_inv self0 H nm D k (st, first, lst, ni)"
      and inj: "inj_on nm {..k}"
  shows "port_order st = port_order self0"
    and "switch_peer_links st (nm k) = None"
    and "\<And>f. first = Some f \<Longrightarrow>
           \<exists>la d. lst = Some la \<and> la \<noteq> nm k \<and> switch_dpids st la = Some d"
proof -
  note I = c [unfolded chain_inv_def, simplified]
  show "port_order st = port_order self0" using I by simp
  have fresh: "nm k \<notin> nm ` {..<k}"
  proof
    assume "nm k \<in> nm ` {..<k}"
    then obtain j where "j < k" "nm k = nm j" by auto
    with inj_on_atMost_neq [OF inj, of j k] show False by simp
  qed
  then show "switch_peer_links st (nm k) = None" using I by simp
  fix f assume f: "first = Some f"
  have fst: "first = (if k = 0 then None else Some (nm 0))"
    and lst: "lst = (if k = 0 then None else Some (nm (k - 1)))" using I by simp_all
  from f fst have kpos: "0 < k" by (cases "k = 0") simp_all
  have "nm (k - 1) \<noteq> nm k"
    using inj_on_atMost_neq [OF inj, of "k - 1" k] kpos by simp
  moreover have "switch_dpids st (nm (k - 1)) = Some (D ! (k - 1))"
    using chain_inv_ports [OF c, of "k - 1"] kpos by simp
  ultimately show "\<exists>la d. lst = Some la \<and> la \<noteq> nm k \<and> switch_dpids st la = Some d"
    using lst kpos by simp
qed

text \<open>
  An invariant \<open>P\<close> that every iteration carries from \<open>k\<close> to \<open>k + 1\<close> switches holds when
  the loop ends; the iteration may use \<open>chain_inv\<close>.
\<close>

lemma build_loop_invariant:
  assumes loop: "build_loop md pint ovs nt vid nu l hw gs k bs ds = Inr bs'"
      and c: "chain_inv self0 H nm D k bs" and P0: "P k (fst bs)"
      and ds: "ds = drop k D" and kl: "k \<le> length D"
      and H: "H = (nt + nu) * l"
      and bound: "H + 2 * switch_to_switch_links self0 < length (port_order self0)"
      and pre: "\<forall>i<length D. \<exists>p. get_sid_prefix (gs i) = Inr p \<and> nm i = ''s'' @ p"
      and inj: "inj_on nm {..<length D}"
      and step: "\<And>k st first lst ni st' first' lst' ni' p.
          k < length D \<Longrightarrow> chain_inv self0 H nm D k (st, first, lst, ni) \<Longrightarrow> P k st \<Longrightarrow>
          build_switch md pint ovs nt vid nu l hw (st, first, lst, ni) (D ! k) (gs k)
            = Inr (st', first', lst', ni') \<Longrightarrow>
          get_sid_prefix (gs k) = Inr p \<Longrightarrow> nm k = ''s'' @ p \<Longrightarrow> P (Suc k) st'"
  shows "P (length D) (fst bs')"
  using loop c P0 ds kl
proof (induction ds arbitrary: k bs)
  case Nil
  then have "k = length D" by simp
  with Nil show ?case by simp
next
  case (Cons d ds)
  have k: "k < length D" using Cons.prems(4) by (metis drop_eq_Nil linorder_not_less list.distinct(1))
  have d: "d = D ! k" and ds: "ds = drop (Suc k) D"
    using Cons.prems(4) k by (simp_all add: Cons_nth_drop_Suc [symmetric])
  from Cons.prems(1) obtain bs1 where
    s: "build_switch md pint ovs nt vid nu l hw bs d (gs k) = Inr bs1"
    and r: "build_loop md pint ovs nt vid nu l hw gs (Suc k) bs1 ds = Inr bs'"
    by (auto simp: and_then_Inr)
  from pre k obtain p where p: "get_sid_prefix (gs k) = Inr p" "nm k = ''s'' @ p" by blast
  have i: "inj_on nm {..k}"
    using inj k by (auto simp: inj_on_def)
  have c1: "chain_inv self0 H nm D (Suc k) bs1"
    by (rule chain_inv_step [OF Cons.prems(2) s H bound p i d])
  obtain st first lst ni where bs: "bs = (st, first, lst, ni)" by (cases bs) auto
  obtain st1 first1 lst1 ni1 where bs1: "bs1 = (st1, first1, lst1, ni1)" by (cases bs1) auto
  have "P (Suc k) st1"
    using step [OF k Cons.prems(2) [unfolded bs] _ s [unfolded bs bs1 d] p] Cons.prems(3)
    by (simp add: bs)
  then have m1: "P (Suc k) (fst bs1)" by (simp add: bs1)
  show ?case
    using Cons.IH [OF r c1 m1 ds] k by simp
qed

lemma build_invariant:
  assumes ok: "build md pint new_topo ovs D nt vid nu l K hw sm ring sp po gs = Inr st"
      and pre: "\<forall>i<length D. \<exists>p. get_sid_prefix (gs i) = Inr p \<and> nm i = ''s'' @ p"
      and inj: "inj_on nm {..<length D}"
      and P0: "P 0 (build_init new_topo nt nu l K hw sm sp po)"
      and step: "\<And>k st first lst ni st' first' lst' ni' p.
          k < length D \<Longrightarrow>
          chain_inv (build_init new_topo nt nu l K hw sm sp po) ((nt + nu) * l) nm D k
            (st, first, lst, ni) \<Longrightarrow> P k st \<Longrightarrow>
          build_switch md pint ovs nt vid nu l hw (st, first, lst, ni) (D ! k) (gs k)
            = Inr (st', first', lst', ni') \<Longrightarrow>
          get_sid_prefix (gs k) = Inr p \<Longrightarrow> nm k = ''s'' @ p \<Longrightarrow> P (Suc k) st'"
  shows "\<exists>st1 fs ls ni.
           chain_inv (build_init new_topo nt nu l K hw sm sp po) ((nt + nu) * l) nm D (length D)
             (st1, fs, ls, ni)
         \<and> P (length D) st1
         \<and> (if ring then D \<noteq> [] \<and> (\<exists>ni'. addLinks st1 (nm 0) (nm (length D - 1)) ni = Inr (st, ni'))
            else st = st1)"
proof -
  let ?self0 = "build_init new_topo nt nu l K hw sm sp po"
  let ?f = "if D = [] then None else Some (nm 0)"
  let ?l = "if D = [] then None else Some (nm (length D - 1))"
  from build_chain_inv [OF ok pre inj] obtain st1 ni where
    loop: "build_loop md pint ovs nt vid nu l hw gs 0 (?self0, None, None, Map.empty) D
            = Inr (st1, ?f, ?l, ni)"
    and cinv: "chain_inv ?self0 ((nt + nu) * l) nm D (length D) (st1, ?f, ?l, ni)"
    and fin: "if ring then D \<noteq> [] \<and> (\<exists>ni'. addLinks st1 (nm 0) (nm (length D - 1)) ni = Inr (st, ni'))
             else st = st1"
    by blast
  have "P (length D) (fst (st1, ?f, ?l, ni))"
    by (rule build_loop_invariant [where P = P, OF loop chain_inv_init _ _ _ refl build_init_bound pre inj step])
       (simp_all add: P0)
  then have "P (length D) st1" by simp
  with cinv fin show ?thesis by blast
qed

lemma build_mirrored:
  assumes ok: "build md pint new_topo ovs D nt vid nu l K hw sm ring sp po gs = Inr st"
      and pre: "\<forall>i<length D. \<exists>p. get_sid_prefix (gs i) = Inr p \<and> nm i = ''s'' @ p"
      and inj: "inj_on nm {..<length D}"
  shows "peer_links_mirrored st"
proof -
  let ?self0 = "build_init new_topo nt nu l K hw sm sp po"
  have P0: "peer_links_mirrored ?self0"
    by (simp add: peer_links_mirrored_def build_init_fields)
  have "\<exists>st1 fs ls ni.
           chain_inv ?self0 ((nt + nu) * l) nm D (length D) (st1, fs, ls, ni)
         \<and> peer_links_mirrored st1
         \<and> (if ring then D \<noteq> [] \<and> (\<exists>ni'. addLinks st1 (nm 0) (nm (length D - 1)) ni = Inr (st, ni'))
            else st = st1)"
  proof (rule build_invariant [where P = "\<lambda>k. peer_links_mirrored", OF ok pre inj P0])
    fix k st first lst ni st' first' lst' ni' p
    assume k: "k < length D"
       and c: "chain_inv ?self0 ((nt + nu) * l) nm D k (st, first, lst, ni)"
       and m: "peer_links_mirrored st"
       and s: "build_switch md pint ovs nt vid nu l hw (st, first, lst, ni) (D ! k) (gs k)
                 = Inr (st', first', lst', ni')"
       and p: "get_sid_prefix (gs k) = Inr p" "nm k = ''s'' @ p"
    have i: "inj_on nm {..k}" using inj k by (auto simp: inj_on_def)
    note f = chain_inv_facts [OF c i]
    have b: "(nt + nu) * l \<le> length (port_order st)"
      using build_init_bound [of nt nu l new_topo K hw sm sp po] f(1) by simp
    show "peer_links_mirrored st'"
      by (rule build_switch_mirrored [OF s b p m f(2) f(3)])
  qed
  then obtain st1 fs ls ni where
    cinv: "chain_inv ?self0 ((nt + nu) * l) nm D (length D) (st1, fs, ls, ni)"
    and m1: "peer_links_mirrored st1"
    and fin: "if ring then D \<noteq> [] \<and> (\<exists>ni'. addLinks st1 (nm 0) (nm (length D - 1)) ni = Inr (st, ni'))
             else st = st1"
    by blast
  show ?thesis
  proof (cases ring)
    case False
    then show ?thesis using fin m1 by simp
  next
    case True
    with fin obtain ni' where ne: "D \<noteq> []"
      and al: "addLinks st1 (nm 0) (nm (length D - 1)) ni = Inr (st, ni')" by auto
    have s1: "switch_dpids st1 (nm 0) = Some (D ! 0)"
      using chain_inv_ports [OF cinv, of 0] ne by simp
    have s2: "switch_dpids st1 (nm (length D - 1)) = Some (D ! (length D - 1))"
      using chain_inv_ports [OF cinv, of "length D - 1"] ne by simp
    show ?thesis by (rule mirrored_addLinks [OF al m1 s1 s2])
  qed
qed

lemma names_inv_step:
  assumes m: "names_inv D k st" and k: "k < length D" and dist: "distinct D"
      and sd: "switch_dpids st' = (switch_dpids st)(n \<mapsto> D ! k)"
      and dn: "dpid_names st' = (dpid_names st)(D ! k \<mapsto> n)"
  shows "names_inv D (Suc k) st'"
proof -
  have cons: "\<And>A d. switch_dpids st A = Some d \<Longrightarrow> dpid_names st d = Some A"
    and dom: "dom (dpid_names st) \<subseteq> set (take k D)"
    using m by (auto simp: names_inv_def)
  have notin: "D ! k \<notin> set (take k D)"
  proof
    assume "D ! k \<in> set (take k D)"
    then obtain i where i: "i < k" "take k D ! i = D ! k"
      by (auto simp: in_set_conv_nth)
    then have "D ! i = D ! k" by simp
    with dist i k show False by (simp add: nth_eq_iff_index_eq)
  qed
  have fresh: "\<And>d B. dpid_names st d = Some B \<Longrightarrow> d \<noteq> D ! k"
    using dom notin by (metis domI subsetD)
  have p2: "\<And>A d. switch_dpids st' A = Some d \<Longrightarrow> dpid_names st' d = Some A"
  proof -
    fix A d assume A: "switch_dpids st' A = Some d"
    show "dpid_names st' d = Some A"
    proof (cases "A = n")
      case True
      then show ?thesis using A by (simp add: sd dn)
    next
      case False
      then have "switch_dpids st A = Some d" using A by (simp add: sd)
      then have c: "dpid_names st d = Some A" by (rule cons)
      then have "d \<noteq> D ! k" by (rule fresh)
      then show ?thesis using c by (simp add: dn)
    qed
  qed
  have p3: "dom (dpid_names st') \<subseteq> set (take (Suc k) D)"
    using dom k by (auto simp: dn take_Suc_conv_app_nth)
  show ?thesis
    unfolding names_inv_def using p2 p3 by blast
qed

lemma build_names:
  assumes ok: "build md pint new_topo ovs D nt vid nu l K hw sm ring sp po gs = Inr st"
      and pre: "\<forall>i<length D. \<exists>p. get_sid_prefix (gs i) = Inr p \<and> nm i = ''s'' @ p"
      and inj: "inj_on nm {..<length D}"
      and dist: "distinct D"
  shows "\<forall>A d. switch_dpids st A = Some d \<longrightarrow> dpid_names st d = Some A"
proof -
  let ?self0 = "build_init new_topo nt nu l K hw sm sp po"
  have P0: "names_inv D 0 ?self0"
    by (simp add: names_inv_def build_init_fields new_topo_def)
  have "\<exists>st1 fs ls ni.
           chain_inv ?self0 ((nt + nu) * l) nm D (length D) (st1, fs, ls, ni)
         \<and> names_inv D (length D) st1
         \<and> (if ring then D \<noteq> [] \<and> (\<exists>ni'. addLinks st1 (nm 0) (nm (length D - 1)) ni = Inr (st, ni'))
            else st = st1)"
  proof (rule build_invariant [where P = "names_inv D", OF ok pre inj P0])
    fix k st first lst ni st' first' lst' ni' p
    assume k: "k < length D"
       and c: "chain_inv ?self0 ((nt + nu) * l) nm D k (st, first, lst, ni)"
       and m: "names_inv D k st"
       and s: "build_switch md pint ovs nt vid nu l hw (st, first, lst, ni) (D ! k) (gs k)
                 = Inr (st', first', lst', ni')"
       and p: "get_sid_prefix (gs k) = Inr p" "nm k = ''s'' @ p"
    have i: "inj_on nm {..k}" using inj k by (auto simp: inj_on_def)
    note f = chain_inv_facts [OF c i]
    have b: "(nt + nu) * l \<le> length (port_order st)"
      using build_init_bound [of nt nu l new_topo K hw sm sp po] f(1) by simp
    from build_switch_names [OF s b p] have
      "switch_dpids st' = (switch_dpids st)(nm k \<mapsto> D ! k)"
      "dpid_names st' = (dpid_names st)(D ! k \<mapsto> nm k)" by simp_all
    then show "names_inv D (Suc k) st'"
      by (rule names_inv_step [OF m k dist])
  qed
  then obtain st1 fs ls ni where
    m1: "names_inv D (length D) st1"
    and fin: "if ring then D \<noteq> [] \<and> (\<exists>ni'. addLinks st1 (nm 0) (nm (length D - 1)) ni = Inr (st, ni'))
             else st = st1"
    by blast
  have "switch_dpids st = switch_dpids st1 \<and> dpid_names st = dpid_names st1"
  proof (cases ring)
    case False
    then show ?thesis using fin by simp
  next
    case True
    with fin obtain ni' where
      al: "addLinks st1 (nm 0) (nm (length D - 1)) ni = Inr (st, ni')" by auto
    from addLinks_frame [OF al] show ?thesis by simp
  qed
  then show ?thesis using m1 by (simp add: names_inv_def)
qed

text \<open>
  C5: after a chain or ring build (any counts, any ring flag) whose switches get
  pairwise distinct prefixes, every peer link \<open>(port, pd, pp)\<close> stored under a switch \<open>A\<close>
  with datapath id \<open>d\<close> has its mirror \<open>(pp, d, port)\<close> in the peer-link list of a switch
  \<open>B\<close> whose datapath id is \<open>pd\<close>; when the datapath ids are pairwise distinct, \<open>B\<close> is the
  switch that \<open>dpid_names\<close> gives for \<open>pd\<close>.
\<close>

theorem peer_links_mirror:
  assumes ok: "build md pint new_topo ovs dpids nt vid nu L K hw sm ring sp po gs = Inr st"
      and pre: "\<forall>i<length dpids. get_sid_prefix (gs i) = Inr (pre i)"
      and inj: "inj_on pre {..<length dpids}"
  shows "\<forall>A d ls l. switch_dpids st A = Some d \<and> switch_peer_links st A = Some ls \<and> l \<in> set ls
           \<longrightarrow> (\<exists>B ls'. switch_dpids st B = Some (peer_dpid l)
                  \<and> switch_peer_links st B = Some ls'
                  \<and> \<lparr>port = peer_port l, peer_dpid = d, peer_port = port l\<rparr> \<in> set ls'
                  \<and> (distinct dpids \<longrightarrow> dpid_names st (peer_dpid l) = Some B))"
proof -
  define nm where "nm = (\<lambda>i. ''s'' @ pre i)"
  have p: "\<forall>i<length dpids. \<exists>p. get_sid_prefix (gs i) = Inr p \<and> nm i = ''s'' @ p"
    using pre by (simp add: nm_def)
  have j: "inj_on nm {..<length dpids}"
    using inj by (auto simp: inj_on_def nm_def)
  have m: "peer_links_mirrored st" by (rule build_mirrored [OF ok p j])
  show ?thesis
  proof (intro allI impI, elim conjE)
    fix A d ls l
    assume a: "switch_dpids st A = Some d" "switch_peer_links st A = Some ls" "l \<in> set ls"
    from m [unfolded peer_links_mirrored_def, rule_format, OF a] obtain B ls' where
      B: "switch_dpids st B = Some (peer_dpid l)" "switch_peer_links st B = Some ls'"
         "\<lparr>port = peer_port l, peer_dpid = d, peer_port = port l\<rparr> \<in> set ls'"
      by blast
    have "distinct dpids \<longrightarrow> dpid_names st (peer_dpid l) = Some B"
    proof
      assume "distinct dpids"
      from build_names [OF ok p j this, rule_format, OF B(1)]
      show "dpid_names st (peer_dpid l) = Some B" .
    qed
    with B show "\<exists>B ls'. switch_dpids st B = Some (peer_dpid l)
                  \<and> switch_peer_links st B = Some ls'
                  \<and> \<lparr>port = peer_port l, peer_dpid = d, peer_port = port l\<rparr> \<in> set ls'
                  \<and> (distinct dpids \<longrightarrow> dpid_names st (peer_dpid l) = Some B)"
      by blast
  qed
qed

lemma example_ring_build:
  "case example_build 2 1 2 True of
     Inl e \<Rightarrow> False
   | Inr st \<Rightarrow> switch_dpids st ''s00'' = Some ''1''
             \<and> switch_peer_links st ''s00''
                = Some [\<lparr>port = 7, peer_dpid = ''2'', peer_port = 7\<rparr>,
                        \<lparr>port = 8, peer_dpid = ''2'', peer_port = 8\<rparr>,
                        \<lparr>port = 9, peer_dpid = ''3'', peer_port = 9\<rparr>,
                        \<lparr>port = 10, peer_dpid = ''3'', peer_port = 10\<rparr>]"
  unfolding example_build_def example_serialno_def by code_simp

lemma example_pre:
  "\<forall>i<length [''1'', ''2'', ''3''].
      get_sid_prefix (example_serialno i)
        = Inr ((\<lambda>i::nat. if i = 0 then ''00'' else if i = 1 then ''01'' else ''02'') i)"
  using example_prefixes by (auto simp: less_Suc_eq numeral_3_eq_3 numeral_2_eq_2)

lemma example_pre_inj:
  "inj_on (\<lambda>i::nat. if i = 0 then ''00'' else if i = 1 then ''01'' else ''02'')
     {..<length [''1'', ''2'', ''3'']}"
  by (auto simp: inj_on_def split: if_splits)

theorem peer_links_mirror_witness:
  "\<exists>st B ls'. example_build 2 1 2 True = Inr st
     \<and> switch_dpids st ''s00'' = Some ''1''
     \<and> switch_dpids st B = Some ''3'' \<and> dpid_names st ''3'' = Some B
     \<and> switch_peer_links st B = Some ls'
     \<and> \<lparr>port = 9, peer_dpid = ''1'', peer_port = 9\<rparr> \<in> set ls'"
proof -
  from example_ring_build obtain st where st: "example_build 2 1 2 True = Inr st"
    and sd: "switch_dpids st ''s00'' = Some ''1''"
    and pl: "switch_peer_links st ''s00''
                = Some [\<lparr>port = 7, peer_dpid = ''2'', peer_port = 7\<rparr>,
                        \<lparr>port = 8, peer_dpid = ''2'', peer_port = 8\<rparr>,
                        \<lparr>port = 9, peer_dpid = ''3'', peer_port = 9\<rparr>,
                        \<lparr>port = 10, peer_dpid = ''3'', peer_port = 10\<rparr>]"
    by (cases "example_build 2 1 2 True") simp_all
  have d: "distinct [''1'', ''2'', ''3'']" by simp
  have mem: "\<lparr>port = 9, peer_dpid = ''3'', peer_port = 9\<rparr>
               \<in> set [\<lparr>port = 7, peer_dpid = ''2'', peer_port = 7\<rparr>,
                        \<lparr>port = 8, peer_dpid = ''2'', peer_port = 8\<rparr>,
                        \<lparr>port = 9, peer_dpid = ''3'', peer_port = 9\<rparr>,
                        \<lparr>port = 10, peer_dpid = ''3'', peer_port = 10\<rparr>]"
    by simp
  have h: "switch_dpids st ''s00'' = Some ''1'' \<and> switch_peer_links st ''s00''
                = Some [\<lparr>port = 7, peer_dpid = ''2'', peer_port = 7\<rparr>,
                        \<lparr>port = 8, peer_dpid = ''2'', peer_port = 8\<rparr>,
                        \<lparr>port = 9, peer_dpid = ''3'', peer_port = 9\<rparr>,
                        \<lparr>port = 10, peer_dpid = ''3'', peer_port = 10\<rparr>]
             \<and> \<lparr>port = 9, peer_dpid = ''3'', peer_port = 9\<rparr>
               \<in> set [\<lparr>port = 7, peer_dpid = ''2'', peer_port = 7\<rparr>,
                        \<lparr>port = 8, peer_dpid = ''2'', peer_port = 8\<rparr>,
                        \<lparr>port = 9, peer_dpid = ''3'', peer_port = 9\<rparr>,
                        \<lparr>port = 10, peer_dpid = ''3'', peer_port = 10\<rparr>]"
    using sd pl mem by (intro conjI)
  note t = peer_links_mirror [OF st [unfolded example_build_def] example_pre example_pre_inj,
      rule_format, OF h]
  from t d obtain B ls' where "switch_dpids st B = Some ''3''" "dpid_names st ''3'' = Some B"
     "switch_peer_links st B = Some ls'"
     "\<lparr>port = 9, peer_dpid = ''1'', peer_port = 9\<rparr> \<in> set ls'"
    by auto
  with st sd show ?thesis by blast
qed

section \<open>Ring closure\<close>

lemma map_result_Inr_map:
  assumes "map_result f xs = Inr ys" "\<And>x y. f x = Inr y \<Longrightarrow> g y = g x"
  shows "map g ys = map g xs"
  using assms
proof (induction xs arbitrary: ys)
  case Nil
  then show ?case by simp
next
  case (Cons x xs)
  from Cons.prems(1) obtain y ys' where y: "f x = Inr y" and r: "map_result f xs = Inr ys'"
    and e: "ys = y # ys'" by (auto simp: and_then_Inr)
  show ?case using Cons.IH [OF r Cons.prems(2)] Cons.prems(2) [OF y] e by simp
qed

lemma map_result_total:
  assumes "\<And>x. f x = Inr x"
  shows "map_result f xs = Inr xs"
  by (induction xs) (simp_all add: assms and_then_def)

lemma hw_remap_peer_link_peer_dpid:
  "hw_remap_peer_link self dpid link = Inr link' \<Longrightarrow> peer_dpid link' = peer_dpid link"
  by (auto simp: hw_remap_peer_link_def and_then_Inr)

lemma hw_remap_peer_link_no_hw:
  "hw_dpid self = None \<Longrightarrow> hw_remap_peer_link self dpid link = Inr link"
  by (simp add: hw_remap_peer_link_def hw_remap_port_def and_then_def)

lemma ring_closure_aux:
  assumes ring: "build md pint new_topo ovs D nt vid nu L K hw sm True sp po gs = Inr st_r"
      and n: "2 \<le> length D"
      and pre: "\<forall>i<length D. \<exists>p. get_sid_prefix (gs i) = Inr p \<and> nm i = ''s'' @ p"
      and inj: "inj_on nm {..<length D}"
  shows "\<exists>st_c l0 m0 x0 x1. build md pint new_topo ovs D nt vid nu L K hw sm False sp po gs = Inr st_c
     \<and> switch_peer_links st_c (nm 0) = Some l0
     \<and> switch_peer_links st_r (nm 0) = Some (l0 @ x0) \<and> length x0 = K
     \<and> (\<forall>l \<in> set x0. peer_dpid l = D ! (length D - 1))
     \<and> switch_peer_links st_c (nm (length D - 1)) = Some m0
     \<and> switch_peer_links st_r (nm (length D - 1)) = Some (m0 @ x1) \<and> length x1 = K
     \<and> switch_dpids st_r (nm 0) = Some (D ! 0) \<and> hw_dpid st_r = hw
     \<and> (\<forall>i<length D. switch_peer_links st_r (nm i) \<noteq> None)"
proof -
  let ?self0 = "build_init new_topo nt nu L K hw sm sp po"
  let ?H = "(nt + nu) * L"
  let ?N = "length D"
  define src where "src = nm 0"
  define dst where "dst = nm (?N - 1)"
  have ne: "D \<noteq> []" using n by auto
  from build_chain_inv [OF ring pre inj] ne obtain st1 ni ni' where
    loop: "build_loop md pint ovs nt vid nu L hw gs 0 (?self0, None, None, Map.empty) D
            = Inr (st1, Some src, Some dst, ni)"
    and cinv: "chain_inv ?self0 ?H nm D ?N (st1, Some src, Some dst, ni)"
    and al: "addLinks st1 src dst ni = Inr (st_r, ni')"
    by (auto simp: src_def dst_def)
  have chain: "build md pint new_topo ovs D nt vid nu L K hw sm False sp po gs = Inr st1"
    using loop by (simp add: build_def Let_def and_then_def)
  note I = cinv [unfolded chain_inv_def, simplified]
  have fr: "start_port st1 = start_port ?self0" "port_order st1 = port_order ?self0"
    "switch_to_switch_links st1 = K" "hw_dpid st1 = hw"
    using I by (simp_all add: build_init_fields)
  have sd: "src \<noteq> dst"
  proof
    assume "src = dst"
    then have "nm 0 = nm (?N - 1)" by (simp add: src_def dst_def)
    moreover have "0 \<in> {..<?N}" "?N - 1 \<in> {..<?N}" using n by auto
    ultimately have "0 = ?N - 1" using inj by (rule inj_onD [rotated])
    then show False using n by simp
  qed
  have l0: "sw_len ?H K ?N 0 = ?H + K" and l1: "sw_len ?H K ?N (?N - 1) = ?H + K"
    using n by (auto simp: sw_len_def)
  have K0: "switch_to_switch_links ?self0 = K" by (simp add: build_init_fields)
  have s0: "switch_ports st1 src \<noteq> None" "ni src = Some (?H + K)"
    "switch_dpids st1 src = Some (D ! 0)" "switch_peer_links st1 src \<noteq> None"
    using I n l0 unfolding src_def K0 by (auto dest!: spec [of _ 0])
  have s1: "switch_ports st1 dst \<noteq> None" "ni dst = Some (?H + K)"
    "switch_dpids st1 dst = Some (D ! (?N - 1))" "switch_peer_links st1 dst \<noteq> None"
    using I n l1 unfolding dst_def K0 by (auto dest!: spec [of _ "?N - 1"])
  from s0 s1 obtain ps1 ps2 pl0 pm0 where
    o: "switch_ports st1 src = Some ps1" "switch_ports st1 dst = Some ps2"
       "switch_peer_links st1 src = Some pl0" "switch_peer_links st1 dst = Some pm0"
    by auto
  have b: "?H + K + switch_to_switch_links st1 \<le> length (port_order st1)"
    using build_init_bound [of nt nu L new_topo K hw sm sp po] fr by (simp add: build_init_fields)
  note r = addLinks_result [OF sd s0(2) s1(2) b b o(1) o(2) s0(3) s1(3)]
  define x0 where "x0 = map (\<lambda>i. \<lparr>port = start_port st1 + port_order st1 ! (?H + K + i),
                                          peer_dpid = D ! (?N - 1),
                                          peer_port = start_port st1 + port_order st1 ! (?H + K + i)\<rparr>)
                                [0..<switch_to_switch_links st1]"
  define x1 where "x1 = map (\<lambda>i. \<lparr>port = start_port st1 + port_order st1 ! (?H + K + i),
                                          peer_dpid = D ! 0,
                                          peer_port = start_port st1 + port_order st1 ! (?H + K + i)\<rparr>)
                                [0..<switch_to_switch_links st1]"
  have pr: "switch_peer_links st_r = (switch_peer_links st1)(src \<mapsto> pl0 @ x0, dst \<mapsto> pm0 @ x1)"
    and dr: "switch_dpids st_r = switch_dpids st1" and hr: "hw_dpid st_r = hw_dpid st1"
    using al unfolding r by (auto simp: o x0_def x1_def)
  have "switch_peer_links st_r src = Some (pl0 @ x0)" "switch_peer_links st_r dst = Some (pm0 @ x1)"
    using sd by (simp_all add: pr)
  moreover have "length x0 = K" "length x1 = K" "\<forall>l \<in> set x0. peer_dpid l = D ! (?N - 1)"
    by (auto simp: x0_def x1_def fr)
  moreover have "\<forall>i<?N. switch_peer_links st_r (nm i) \<noteq> None"
  proof (intro allI impI)
    fix i assume "i < ?N"
    then have "switch_peer_links st1 (nm i) \<noteq> None" using I n by simp
    then show "switch_peer_links st_r (nm i) \<noteq> None" by (simp add: pr)
  qed
  ultimately show ?thesis
    using chain o s0(3) dr hr fr(4) unfolding src_def dst_def by auto
qed


lemma build_first_dpid:
  assumes ok: "build md pint new_topo ovs D nt vid nu l K hw sm ring sp po gs = Inr st"
      and pre: "\<forall>i<length D. \<exists>p. get_sid_prefix (gs i) = Inr p \<and> nm i = ''s'' @ p"
      and inj: "inj_on nm {..<length D}"
      and ne: "D \<noteq> []" and first: "D ! 0 \<notin> set (tl D)"
  shows "dpid_names st (D ! 0) = Some (nm 0)"
proof -
  let ?self0 = "build_init new_topo nt nu l K hw sm sp po"
  let ?P = "\<lambda>(k::nat) st. 0 < k \<longrightarrow> dpid_names st (D ! 0) = Some (nm 0)"
  have "\<exists>st1 fs ls ni.
           chain_inv ?self0 ((nt + nu) * l) nm D (length D) (st1, fs, ls, ni)
         \<and> ?P (length D) st1
         \<and> (if ring then D \<noteq> [] \<and> (\<exists>ni'. addLinks st1 (nm 0) (nm (length D - 1)) ni = Inr (st, ni'))
            else st = st1)"
  proof (rule build_invariant [where P = ?P, OF ok pre inj])
    show "?P 0 ?self0" by simp
  next
    fix k st first lst ni st' first' lst' ni' p
    assume k: "k < length D"
       and c: "chain_inv ?self0 ((nt + nu) * l) nm D k (st, first, lst, ni)"
       and m: "?P k st"
       and s: "build_switch md pint ovs nt vid nu l hw (st, first, lst, ni) (D ! k) (gs k)
                 = Inr (st', first', lst', ni')"
       and p: "get_sid_prefix (gs k) = Inr p" "nm k = ''s'' @ p"
    have i: "inj_on nm {..k}" using inj k by (auto simp: inj_on_def)
    note f = chain_inv_facts [OF c i]
    have b: "(nt + nu) * l \<le> length (port_order st)"
      using build_init_bound [of nt nu l new_topo K hw sm sp po] f(1) by simp
    from build_switch_names [OF s b p] have
      dn: "dpid_names st' = (dpid_names st)(D ! k \<mapsto> nm k)" by simp
    show "?P (Suc k) st'"
    proof (cases "k = 0")
      case True
      then show ?thesis by (simp add: dn)
    next
      case False
      then have "D ! k = tl D ! (k - 1)" using k by (simp add: nth_tl)
      moreover have "k - 1 < length (tl D)" using k False by simp
      ultimately have "D ! k \<in> set (tl D)" by (metis nth_mem)
      with first have "D ! k \<noteq> D ! 0" by auto
      then show ?thesis using m False by (simp add: dn)
    qed
  qed
  then obtain st1 ni where
    m1: "?P (length D) st1"
    and fin: "if ring then D \<noteq> [] \<and> (\<exists>ni'. addLinks st1 (nm 0) (nm (length D - 1)) ni = Inr (st, ni'))
             else st = st1"
    by blast
  have "dpid_names st = dpid_names st1"
  proof (cases ring)
    case False
    then show ?thesis using fin by simp
  next
    case True
    with fin obtain ni' where
      al: "addLinks st1 (nm 0) (nm (length D - 1)) ni = Inr (st, ni')" by auto
    from addLinks_frame [OF al] show ?thesis by simp
  qed
  then show ?thesis using m1 ne by simp
qed

lemma build_dpid_names_range:
  assumes ok: "build md pint new_topo ovs D nt vid nu l K hw sm ring sp po gs = Inr st"
      and pre: "\<forall>i<length D. \<exists>p. get_sid_prefix (gs i) = Inr p \<and> nm i = ''s'' @ p"
      and inj: "inj_on nm {..<length D}"
  shows "\<forall>j<length D. \<exists>i<length D. dpid_names st (D ! j) = Some (nm i)"
proof -
  let ?self0 = "build_init new_topo nt nu l K hw sm sp po"
  let ?P = "\<lambda>(k::nat) st. \<forall>j<k. \<exists>i<k. dpid_names st (D ! j) = Some (nm i)"
  have "\<exists>st1 fs ls ni.
           chain_inv ?self0 ((nt + nu) * l) nm D (length D) (st1, fs, ls, ni)
         \<and> ?P (length D) st1
         \<and> (if ring then D \<noteq> [] \<and> (\<exists>ni'. addLinks st1 (nm 0) (nm (length D - 1)) ni = Inr (st, ni'))
            else st = st1)"
  proof (rule build_invariant [where P = ?P, OF ok pre inj])
    show "?P 0 ?self0" by simp
  next
    fix k st first lst ni st' first' lst' ni' p
    assume k: "k < length D"
       and c: "chain_inv ?self0 ((nt + nu) * l) nm D k (st, first, lst, ni)"
       and m: "?P k st"
       and s: "build_switch md pint ovs nt vid nu l hw (st, first, lst, ni) (D ! k) (gs k)
                 = Inr (st', first', lst', ni')"
       and p: "get_sid_prefix (gs k) = Inr p" "nm k = ''s'' @ p"
    have i: "inj_on nm {..k}" using inj k by (auto simp: inj_on_def)
    note f = chain_inv_facts [OF c i]
    have b: "(nt + nu) * l \<le> length (port_order st)"
      using build_init_bound [of nt nu l new_topo K hw sm sp po] f(1) by simp
    from build_switch_names [OF s b p] have
      dn: "dpid_names st' = (dpid_names st)(D ! k \<mapsto> nm k)" by simp
    show "?P (Suc k) st'"
    proof (intro allI impI)
      fix j assume j: "j < Suc k"
      show "\<exists>i<Suc k. dpid_names st' (D ! j) = Some (nm i)"
      proof (cases "D ! j = D ! k")
        case True
        then have "dpid_names st' (D ! j) = Some (nm k)" by (simp add: dn)
        then show ?thesis by blast
      next
        case False
        then have "j < k" using j by (cases "j = k") simp_all
        with m obtain i where "i < k" "dpid_names st (D ! j) = Some (nm i)" by blast
        then have "i < Suc k \<and> dpid_names st' (D ! j) = Some (nm i)"
          using False by (simp add: dn)
        then show ?thesis by blast
      qed
    qed
  qed
  then obtain st1 ni where
    m1: "?P (length D) st1"
    and fin: "if ring then D \<noteq> [] \<and> (\<exists>ni'. addLinks st1 (nm 0) (nm (length D - 1)) ni = Inr (st, ni'))
             else st = st1"
    by blast
  have "dpid_names st = dpid_names st1"
  proof (cases ring)
    case False
    then show ?thesis using fin by simp
  next
    case True
    with fin obtain ni' where
      al: "addLinks st1 (nm 0) (nm (length D - 1)) ni = Inr (st, ni')" by auto
    from addLinks_frame [OF al] show ?thesis by simp
  qed
  then show ?thesis using m1 by simp
qed

text \<open>
  C8, as stated, fails in three ways, each on a ring build of at least three switches
  that returns. With \<open>switch_to_switch_links = 0\<close> no record is added, and
  \<open>dpid_peer_links\<close> of the first datapath id returns the empty list. When the second
  switch has the datapath id of the first, \<open>dpid_names\<close> leads to the second switch,
  whose peers are the first and the third switch, not the last. When the first datapath
  id is the hardware one and no switch map is given, \<open>dpid_peer_links\<close> fails with an
  AssertionError.
\<close>

theorem ring_closure_counterexample:
  "example_ring_peer_dpids [''1'', ''2'', ''3''] 0 None ''1'' = Inr []
   \<and> example_ring_peer_dpids [''1'', ''1'', ''2'', ''3''] 1 None ''1'' = Inr [''1'', ''2'']
   \<and> example_ring_peer_dpids [''1'', ''2'', ''3''] 1 (Some ''1'') ''1'' = Inl AssertionError"
  unfolding example_ring_peer_dpids_def example_serialno_def by code_simp

text \<open>
  C8, amended: for a ring build of at least three switches that returns, the same build
  without the ring returns too, and the first and the last switch each hold exactly \<open>K\<close>
  more peer-link records than in it. When \<open>K \<ge> 1\<close>, no later switch has the datapath
  id of the first one, and \<open>dpid_peer_links\<close> of the first datapath id returns, its
  result has an entry whose \<open>peer_dpid\<close> is the last switch's datapath id.
  \<open>dpid_peer_links\<close> returns whenever no hardware datapath is configured.
\<close>

theorem ring_closure:
  assumes ring: "build md pint new_topo ovs dpids nt vid nu L K hw sm True sp po gs = Inr st_r"
      and n: "3 \<le> length dpids"
      and pre: "\<forall>i<length dpids. get_sid_prefix (gs i) = Inr (pre i)"
      and inj: "inj_on pre {..<length dpids}"
  shows "\<exists>st_c l0 l1 m0 m1.
           build md pint new_topo ovs dpids nt vid nu L K hw sm False sp po gs = Inr st_c
         \<and> switch_peer_links st_c (''s'' @ pre 0) = Some l0
         \<and> switch_peer_links st_r (''s'' @ pre 0) = Some l1 \<and> length l1 = length l0 + K
         \<and> switch_peer_links st_c (''s'' @ pre (length dpids - 1)) = Some m0
         \<and> switch_peer_links st_r (''s'' @ pre (length dpids - 1)) = Some m1
         \<and> length m1 = length m0 + K
         \<and> (\<forall>links. 1 \<le> K \<and> dpids ! 0 \<notin> set (tl dpids)
                   \<and> dpid_peer_links st_r (dpids ! 0) = Inr links
               \<longrightarrow> (\<exists>l \<in> set links. peer_dpid l = dpids ! (length dpids - 1)))
         \<and> (hw = None \<longrightarrow> (\<exists>links. dpid_peer_links st_r (dpids ! 0) = Inr links))"
proof -
  define nm where "nm = (\<lambda>i. ''s'' @ pre i)"
  have p: "\<forall>i<length dpids. \<exists>p. get_sid_prefix (gs i) = Inr p \<and> nm i = ''s'' @ p"
    using pre by (simp add: nm_def)
  have j: "inj_on nm {..<length dpids}"
    using inj by (auto simp: inj_on_def nm_def)
  have n2: "2 \<le> length dpids" and ne: "dpids \<noteq> []" using n by auto
  from ring_closure_aux [OF ring n2 p j] obtain st_c l0 m0 x0 x1 where
    c: "build md pint new_topo ovs dpids nt vid nu L K hw sm False sp po gs = Inr st_c"
    and a: "switch_peer_links st_c (nm 0) = Some l0"
           "switch_peer_links st_r (nm 0) = Some (l0 @ x0)" "length x0 = K"
    and x0: "\<forall>l \<in> set x0. peer_dpid l = dpids ! (length dpids - 1)"
    and b: "switch_peer_links st_c (nm (length dpids - 1)) = Some m0"
           "switch_peer_links st_r (nm (length dpids - 1)) = Some (m0 @ x1)" "length x1 = K"
    and hw: "hw_dpid st_r = hw"
    and all: "\<forall>i<length dpids. switch_peer_links st_r (nm i) \<noteq> None"
    by blast
  have e1: "\<forall>links. 1 \<le> K \<and> dpids ! 0 \<notin> set (tl dpids)
                   \<and> dpid_peer_links st_r (dpids ! 0) = Inr links
               \<longrightarrow> (\<exists>l \<in> set links. peer_dpid l = dpids ! (length dpids - 1))"
  proof (intro allI impI, elim conjE)
    fix links
    assume K: "1 \<le> K" and f: "dpids ! 0 \<notin> set (tl dpids)"
       and r: "dpid_peer_links st_r (dpids ! 0) = Inr links"
    have dn: "dpid_names st_r (dpids ! 0) = Some (nm 0)"
      by (rule build_first_dpid [OF ring p j ne f])
    have m: "map_result (hw_remap_peer_link st_r (dpids ! 0)) (l0 @ x0) = Inr links"
      using r by (simp add: dpid_peer_links_def dn a(2) py_lookup_def and_then_def)
    have eq: "map peer_dpid links = map peer_dpid (l0 @ x0)"
      by (rule map_result_Inr_map [OF m]) (rule hw_remap_peer_link_peer_dpid)
    from K a(3) have "x0 \<noteq> []" by auto
    then obtain x where x: "x \<in> set x0" by (cases x0) auto
    then have "peer_dpid x \<in> set (map peer_dpid (l0 @ x0))" by simp
    then have "dpids ! (length dpids - 1) \<in> set (map peer_dpid links)"
      using x0 x eq by simp
    then show "\<exists>l \<in> set links. peer_dpid l = dpids ! (length dpids - 1)" by auto
  qed
  have e2: "hw = None \<longrightarrow> (\<exists>links. dpid_peer_links st_r (dpids ! 0) = Inr links)"
  proof
    assume "hw = None"
    then have h: "hw_dpid st_r = None" using hw by simp
    from build_dpid_names_range [OF ring p j] ne obtain i where
      i: "i < length dpids" "dpid_names st_r (dpids ! 0) = Some (nm i)" by auto
    from all i(1) obtain ls where ls: "switch_peer_links st_r (nm i) = Some ls" by auto
    have "map_result (hw_remap_peer_link st_r (dpids ! 0)) ls = Inr ls"
      using h by (intro map_result_total hw_remap_peer_link_no_hw)
    then have "dpid_peer_links st_r (dpids ! 0) = Inr ls"
      by (simp add: dpid_peer_links_def i(2) ls py_lookup_def and_then_def)
    then show "\<exists>links. dpid_peer_links st_r (dpids ! 0) = Inr links" by blast
  qed
  have "length (l0 @ x0) = length l0 + K" "length (m0 @ x1) = length m0 + K"
    using a(3) b(3) by simp_all
  then show ?thesis
    using c a(1,2) b(1,2) e1 e2 unfolding nm_def by blast
qed

lemma example_ring_ok: "\<exists>st. example_build 2 1 2 True = Inr st"
  using example_ring_build by (cases "example_build 2 1 2 True") simp_all

theorem ring_closure_witness:
  "\<exists>st_r st_c l0 l1 m0 m1 links l.
      example_build 2 1 2 True = Inr st_r \<and> example_build 2 1 2 False = Inr st_c
    \<and> switch_peer_links st_c ''s00'' = Some l0 \<and> switch_peer_links st_r ''s00'' = Some l1
    \<and> length l1 = length l0 + 2
    \<and> switch_peer_links st_c ''s02'' = Some m0 \<and> switch_peer_links st_r ''s02'' = Some m1
    \<and> length m1 = length m0 + 2
    \<and> dpid_peer_links st_r ''1'' = Inr links \<and> l \<in> set links \<and> peer_dpid l = ''3''"
proof -
  obtain st_r where r: "example_build 2 1 2 True = Inr st_r"
    using example_ring_ok by blast
  have n: "3 \<le> length [''1'', ''2'', ''3'']" by simp
  from ring_closure [OF r [unfolded example_build_def] n example_pre example_pre_inj]
  obtain st_c l0 l1 m0 m1 where
    c: "example_build 2 1 2 False = Inr st_c"
    and a: "switch_peer_links st_c ''s00'' = Some l0" "switch_peer_links st_r ''s00'' = Some l1"
           "length l1 = length l0 + 2"
    and b: "switch_peer_links st_c ''s02'' = Some m0" "switch_peer_links st_r ''s02'' = Some m1"
           "length m1 = length m0 + 2"
    and e1: "\<forall>links. 1 \<le> (2::nat) \<and> [''1'', ''2'', ''3''] ! 0 \<notin> set (tl [''1'', ''2'', ''3''])
               \<and> dpid_peer_links st_r ''1'' = Inr links
               \<longrightarrow> (\<exists>l \<in> set links. peer_dpid l = ''3'')"
    and e2: "\<exists>links. dpid_peer_links st_r ''1'' = Inr links"
    unfolding example_build_def by auto
  from e2 obtain links where li: "dpid_peer_links st_r ''1'' = Inr links" by blast
  with e1 obtain l where "l \<in> set links" "peer_dpid l = ''3''" by auto
  with r c a b li show ?thesis by blast
qed

section \<open>The build returns\<close>

text \<open>
  The theorems about a finished build are not empty: a build returns whenever every
  switch gets a prefix, the prefixes are pairwise distinct and each switch can be
  created (the datapath id of the hardware switch is a number, and \<open>mininet_dpid\<close>
  accepts the ids). The ring is closed between two different switches here.
\<close>

lemma add_faucet_switch_ok_any_state:
  assumes "add_faucet_switch md pint st p d hw ovs = Inr r"
  shows "\<exists>r'. add_faucet_switch md pint st' p' d hw ovs = Inr r'"
  using assms
  by (auto simp: add_faucet_switch_def addSwitch_def and_then_def Let_def
           split: sum.splits if_splits prod.splits)

lemma build_switch_returns:
  assumes inv: "chain_inv self0 H nm D k bs"
      and H: "H = (nt + nu) * l"
      and bound: "H + 2 * switch_to_switch_links self0 < length (port_order self0)"
      and p: "get_sid_prefix s = Inr p" "nm k = ''s'' @ p"
      and inj: "inj_on nm {..k}"
      and fs: "\<exists>r. add_faucet_switch md pint (fst bs) p dpid hw ovs = Inr r"
  shows "\<exists>bs'. build_switch md pint ovs nt vid nu l hw bs dpid s = Inr bs'"
proof -
  obtain st first lst ni where bs: "bs = (st, first, lst, ni)" by (cases bs) auto
  let ?K = "switch_to_switch_links self0"
  let ?f = "\<lambda>i. start_port self0 + port_order self0 ! i"
  note I = inv [unfolded chain_inv_def bs, simplified]
  have fr: "start_port st = start_port self0" "port_order st = port_order self0"
    "switch_to_switch_links st = ?K"
    using I by simp_all
  have fst: "first = (if k = 0 then None else Some (nm 0))"
    and lst: "lst = (if k = 0 then None else Some (nm (k - 1)))" using I by simp_all
  from fs obtain st1 n1 where a: "add_faucet_switch md pint st p dpid hw ovs = Inr (st1, n1)"
    by (auto simp: bs)
  from add_faucet_switch_result [OF a] p(2) obtain spec where n1: "n1 = nm k"
    and st1: "st1 = st\<lparr>switch_dpids := (switch_dpids st)(nm k \<mapsto> dpid),
            dpid_names := (dpid_names st)(dpid \<mapsto> nm k), switches := switches st @ [spec]\<rparr>"
    by auto
  let ?hosts = "map (add_tagged_host p vid) [0..<nt] @ map (add_untagged_host p) [0..<nu]"
  have len: "length ?hosts * l = H" by (simp add: H)
  have fresh: "nm k \<notin> nm ` {..<k}"
  proof
    assume "nm k \<in> nm ` {..<k}"
    then obtain j where "j < k" "nm k = nm j" by auto
    with inj_on_atMost_neq [OF inj, of j k] show False by simp
  qed
  have nk: "switch_ports st (nm k) = None" using I fresh by simp
  let ?st2 = "st1\<lparr>switch_ports := (switch_ports st1)(nm k \<mapsto> map ?f [0..<H])\<rparr>"
  have al: "add_links st1 (nm k) ?hosts l = Inr (?st2, H)"
    using add_links_result [of ?hosts l st1 "nm k"] bound fr
    unfolding len by (simp add: st1 nk)
  let ?ni1 = "ni(nm k \<mapsto> H)"
  have rest: "build_switch md pint ovs nt vid nu l hw bs dpid s =
      (case first of
         None \<Rightarrow> Inr (?st2, Some (nm k), Some (nm k), ?ni1)
       | Some first_sw \<Rightarrow>
           (case lst of
              None \<Rightarrow> Inl KeyError
            | Some last_sw \<Rightarrow>
                and_then (addLinks ?st2 last_sw (nm k) ?ni1) (\<lambda>(self3, next_index2).
                  Inr (self3, first, Some (nm k), next_index2))))"
    unfolding build_switch_def bs
    by (simp add: p(1) a [unfolded n1] al and_then_def Let_def del: add_links_hosts.simps)
  show ?thesis
  proof (cases "k = 0")
    case True
    then show ?thesis using rest fst by simp
  next
    case False
    then have kpos: "0 < k" by simp
    define src where "src = nm (k - 1)"
    define a where "a = sw_len H ?K k (k - 1)"
    have sd: "src \<noteq> nm k"
      using inj_on_atMost_neq [OF inj, of "k - 1" k] kpos by (simp add: src_def)
    have o: "switch_ports st src = Some (map ?f [0..<a])" "ni src = Some a"
      "switch_dpids st src = Some (D ! (k - 1))"
      using I kpos by (simp_all add: src_def a_def)
    have ab: "a + ?K \<le> length (port_order self0)" "H + ?K \<le> length (port_order self0)"
      using bound sw_len_simps(7) [OF kpos, of H ?K] by (simp_all add: a_def)
    have "\<exists>r. addLinks ?st2 src (nm k) ?ni1 = Inr r"
      using sd o ab fr by (subst addLinks_result [where ?a = a and ?b = H]) (simp_all add: st1)
    then obtain st3 ni2 where "addLinks ?st2 src (nm k) ?ni1 = Inr (st3, ni2)" by auto
    then show ?thesis
      using rest fst lst False by (simp add: src_def and_then_def)
  qed
qed

lemma build_loop_returns:
  assumes "chain_inv self0 H nm D k bs"
      and "ds = drop k D" "k \<le> length D"
      and H: "H = (nt + nu) * l"
      and bound: "H + 2 * switch_to_switch_links self0 < length (port_order self0)"
      and pre: "\<forall>i<length D. \<exists>p. get_sid_prefix (gs i) = Inr p \<and> nm i = ''s'' @ p"
      and inj: "inj_on nm {..<length D}"
      and fs: "\<forall>d \<in> set D. \<exists>r. add_faucet_switch md pint new_topo [] d hw ovs = Inr r"
  shows "\<exists>bs'. build_loop md pint ovs nt vid nu l hw gs k bs ds = Inr bs'"
  using assms(1-3)
proof (induction ds arbitrary: k bs)
  case Nil
  show ?case by (metis build_loop.simps(1))
next
  case (Cons d ds)
  have k: "k < length D" using Cons.prems(2) by (metis drop_eq_Nil linorder_not_less list.distinct(1))
  have d: "d = D ! k" and ds: "ds = drop (Suc k) D"
    using Cons.prems(2) k by (simp_all add: Cons_nth_drop_Suc [symmetric])
  from pre k obtain p where p: "get_sid_prefix (gs k) = Inr p" "nm k = ''s'' @ p" by blast
  have i: "inj_on nm {..k}"
    using inj k by (auto simp: inj_on_def)
  have "d \<in> set D" using d k by simp
  with fs obtain r where "add_faucet_switch md pint new_topo [] d hw ovs = Inr r" by blast
  then have f: "\<exists>r. add_faucet_switch md pint (fst bs) p d hw ovs = Inr r"
    by (rule add_faucet_switch_ok_any_state)
  from build_switch_returns [OF Cons.prems(1) H bound p i f] obtain bs1 where
    s: "build_switch md pint ovs nt vid nu l hw bs d (gs k) = Inr bs1" by blast
  have c1: "chain_inv self0 H nm D (Suc k) bs1"
    by (rule chain_inv_step [OF Cons.prems(1) s H bound p i d])
  from Cons.IH [OF c1 ds] k obtain bs' where
    r: "build_loop md pint ovs nt vid nu l hw gs (Suc k) bs1 ds = Inr bs'" by auto
  have "build_loop md pint ovs nt vid nu l hw gs k bs (d # ds) = Inr bs'"
    by (simp add: s r and_then_def)
  then show ?case by (rule exI)
qed

lemma build_returns:
  assumes pre: "\<forall>i<length D. get_sid_prefix (gs i) = Inr (pre i)"
      and inj: "inj_on pre {..<length D}"
      and fs: "\<forall>d \<in> set D. \<exists>r. add_faucet_switch md pint new_topo [] d hw ovs = Inr r"
      and n: "ring \<longrightarrow> 2 \<le> length D"
  shows "\<exists>st. build md pint new_topo ovs D nt vid nu l K hw sm ring sp po gs = Inr st"
proof -
  define nm where "nm = (\<lambda>i. ''s'' @ pre i)"
  let ?self0 = "build_init new_topo nt nu l K hw sm sp po"
  let ?H = "(nt + nu) * l"
  have p: "\<forall>i<length D. \<exists>p. get_sid_prefix (gs i) = Inr p \<and> nm i = ''s'' @ p"
    using pre by (simp add: nm_def)
  have j: "inj_on nm {..<length D}"
    using inj by (auto simp: inj_on_def nm_def)
  have "\<exists>bs'. build_loop md pint ovs nt vid nu l hw gs 0 (?self0, None, None, Map.empty) D = Inr bs'"
    by (rule build_loop_returns [where ?self0.0 = ?self0 and H = ?H and nm = nm and D = D,
          OF chain_inv_init _ _ refl build_init_bound p j fs]) simp_all
  then obtain bs' where loop: "build_loop md pint ovs nt vid nu l hw gs 0 (?self0, None, None, Map.empty) D = Inr bs'"
    by auto
  have cinv: "chain_inv ?self0 ?H nm D (length D) bs'"
    by (rule build_loop_chain_inv [OF loop chain_inv_init _ _ refl build_init_bound p j]) simp_all
  obtain st1 first lst ni where bs': "bs' = (st1, first, lst, ni)" by (cases bs') auto
  show ?thesis
  proof (cases ring)
    case False
    then show ?thesis by (simp add: build_def Let_def loop bs' and_then_def)
  next
    case True
    with n have n2: "2 \<le> length D" by simp
    note I = cinv [unfolded chain_inv_def bs', simplified]
    have K0: "switch_to_switch_links ?self0 = K" by (simp add: build_init_fields)
    have f: "first = Some (nm 0)" "lst = Some (nm (length D - 1))" using I n2 by auto
    have fr: "port_order st1 = port_order ?self0" "switch_to_switch_links st1 = K"
      using I by (simp_all add: build_init_fields)
    have sd: "nm 0 \<noteq> nm (length D - 1)"
    proof
      assume "nm 0 = nm (length D - 1)"
      moreover have "0 \<in> {..<length D}" "length D - 1 \<in> {..<length D}" using n2 by auto
      ultimately have "0 = length D - 1" using j by (rule inj_onD [rotated])
      then show False using n2 by simp
    qed
    have l0: "sw_len ?H K (length D) 0 = ?H + K" and l1: "sw_len ?H K (length D) (length D - 1) = ?H + K"
      using n2 by (auto simp: sw_len_def)
    have s0: "switch_ports st1 (nm 0) \<noteq> None" "ni (nm 0) = Some (?H + K)"
      "switch_dpids st1 (nm 0) = Some (D ! 0)"
      using I n2 l0 unfolding K0 by (auto dest!: spec [of _ 0])
    have s1: "switch_ports st1 (nm (length D - 1)) \<noteq> None" "ni (nm (length D - 1)) = Some (?H + K)"
      "switch_dpids st1 (nm (length D - 1)) = Some (D ! (length D - 1))"
      using I n2 l1 unfolding K0 by (auto dest!: spec [of _ "length D - 1"])
    from s0 s1 obtain ps1 ps2 where
      o: "switch_ports st1 (nm 0) = Some ps1" "switch_ports st1 (nm (length D - 1)) = Some ps2"
      by auto
    have b: "?H + K + switch_to_switch_links st1 \<le> length (port_order st1)"
      using build_init_bound [of nt nu l new_topo K hw sm sp po] fr by (simp add: build_init_fields)
    have "\<exists>r. addLinks st1 (nm 0) (nm (length D - 1)) ni = Inr r"
      unfolding addLinks_result [OF sd s0(2) s1(2) b b o(1) o(2) s0(3) s1(3)] by simp
    then obtain st ni' where "addLinks st1 (nm 0) (nm (length D - 1)) ni = Inr (st, ni')" by auto
    then show ?thesis
      using True by (simp add: build_def Let_def loop bs' f and_then_def)
  qed
qed

end
